theory Spec2Isabelle
  imports Complex_Main
begin

section \<open>Data model\<close>

text \<open>
  The desktop program (\<^verbatim>\<open>tictactoe_ai.py\<close>) and the web front end (\<^verbatim>\<open>web_app.py\<close>) carry
  the same classes \<^verbatim>\<open>TicTacToeGame\<close> and \<^verbatim>\<open>MinimaxAI\<close>, statement for statement; one
  model serves both.

  A cell of the board is a Python string; the empty cell is the one-blank string.
  The board is a list of rows, each a list of cells (\<^verbatim>\<open>[ [' ' for _ in range(3)] for _ in range(3)]\<close>).
\<close>

type_synonym cell = string
type_synonym board = "cell list list"

abbreviation blank :: cell where
  "blank \<equiv> '' ''"

datatype py_error = IndexError | KeyError

datatype Difficulty = EASY | MEDIUM | HARD

text \<open>
  Numbers as the source uses them: Python integers and the two float infinities
  (\<^verbatim>\<open>float('inf')\<close>, \<^verbatim>\<open>-float('inf')\<close>).
\<close>

datatype pynum = NegInf | Fin int | PosInf

fun py_lt :: "pynum \<Rightarrow> pynum \<Rightarrow> bool" where
  "py_lt NegInf NegInf = False"
| "py_lt NegInf (Fin b) = True"
| "py_lt NegInf PosInf = True"
| "py_lt (Fin a) NegInf = False"
| "py_lt (Fin a) (Fin b) = (a < b)"
| "py_lt (Fin a) PosInf = True"
| "py_lt PosInf b = False"

text \<open>\<^verbatim>\<open>max(a, b)\<close> keeps \<open>a\<close> unless \<open>b\<close> is larger; \<^verbatim>\<open>min(a, b)\<close> keeps \<open>a\<close> unless \<open>b\<close> is smaller.\<close>

definition py_max :: "pynum \<Rightarrow> pynum \<Rightarrow> pynum" where
  "py_max a b = (if py_lt a b then b else a)"

definition py_min :: "pynum \<Rightarrow> pynum \<Rightarrow> pynum" where
  "py_min a b = (if py_lt b a then b else a)"

text \<open>
  Python list indexing with an integer supplied by the caller: a negative index counts
  from the end, anything outside \<open>-n .. n-1\<close> raises \<^verbatim>\<open>IndexError\<close>.
\<close>

definition py_index :: "'a list \<Rightarrow> int \<Rightarrow> py_error + nat" where
  "py_index xs i =
     (if 0 \<le> i \<and> i < int (length xs) then Inr (nat i)
      else if i < 0 \<and> - int (length xs) \<le> i then Inr (nat (i + int (length xs)))
      else Inl IndexError)"

section \<open>TicTacToeGame\<close>

text \<open>The field \<^verbatim>\<open>start_time\<close> (a wall-clock float) plays no role in the game logic and is left out.\<close>

record game =
  board :: board
  current_player :: string
  move_count :: int

definition init_board :: board where
  "init_board = [ [blank, blank, blank], [blank, blank, blank], [blank, blank, blank] ]"

definition init_game :: game where
  "init_game = \<lparr>board = init_board, current_player = ''X'', move_count = 0\<rparr>"

definition wf_board :: "board \<Rightarrow> bool" where
  "wf_board b = (length b = 3 \<and> list_all (\<lambda>row. length row = 3) b)"

text \<open>Writing one cell: \<^verbatim>\<open>board[i][j] = s\<close>.\<close>

definition place :: "board \<Rightarrow> nat \<Rightarrow> nat \<Rightarrow> cell \<Rightarrow> board" where
  "place b i j s = b[i := (b ! i)[j := s] ]"

text \<open>
  \<^verbatim>\<open>make_move(row, col, player)\<close>: the two subscripts are evaluated first (either may raise),
  then the cell is tested and, when blank, written.
\<close>

definition make_move :: "game \<Rightarrow> int \<Rightarrow> int \<Rightarrow> cell \<Rightarrow> py_error + (bool \<times> game)" where
  "make_move g row col player =
     (case py_index (board g) row of
        Inl e \<Rightarrow> Inl e
      | Inr r \<Rightarrow>
         (case py_index (board g ! r) col of
            Inl e \<Rightarrow> Inl e
          | Inr c \<Rightarrow>
             if board g ! r ! c = blank
             then Inr (True, g\<lparr>board := place (board g) r c player,
                                move_count := move_count g + 1\<rparr>)
             else Inr (False, g)))"

text \<open>
  The winner scan, written once: \<^verbatim>\<open>TicTacToeGame.check_winner\<close> and
  \<^verbatim>\<open>MinimaxAI.check_winner_static\<close> are the same statements over \<^verbatim>\<open>self.board\<close> and
  over the argument \<^verbatim>\<open>board\<close>. The chained comparison \<^verbatim>\<open>a == b == c != ' '\<close> is
  \<^verbatim>\<open>a == b and b == c and c != ' '\<close>.
\<close>

fun check_rows :: "board \<Rightarrow> cell option" where
  "check_rows [] = None"
| "check_rows (row # rows) =
     (if row ! 0 = row ! 1 \<and> row ! 1 = row ! 2 \<and> row ! 2 \<noteq> blank then Some (row ! 0)
      else check_rows rows)"

fun check_cols :: "board \<Rightarrow> nat list \<Rightarrow> cell option" where
  "check_cols b [] = None"
| "check_cols b (col # cols) =
     (if b ! 0 ! col = b ! 1 ! col \<and> b ! 1 ! col = b ! 2 ! col \<and> b ! 2 ! col \<noteq> blank
      then Some (b ! 0 ! col)
      else check_cols b cols)"

definition check_winner_static :: "board \<Rightarrow> cell option" where
  "check_winner_static b =
     (case check_rows b of
        Some w \<Rightarrow> Some w
      | None \<Rightarrow>
         (case check_cols b [0, 1, 2] of
            Some w \<Rightarrow> Some w
          | None \<Rightarrow>
             if b ! 0 ! 0 = b ! 1 ! 1 \<and> b ! 1 ! 1 = b ! 2 ! 2 \<and> b ! 2 ! 2 \<noteq> blank
             then Some (b ! 0 ! 0)
             else if b ! 0 ! 2 = b ! 1 ! 1 \<and> b ! 1 ! 1 = b ! 2 ! 0 \<and> b ! 2 ! 0 \<noteq> blank
             then Some (b ! 0 ! 2)
             else None))"

definition check_winner :: "game \<Rightarrow> cell option" where
  "check_winner g = check_winner_static (board g)"

text \<open>\<^verbatim>\<open>all(cell != ' ' for row in board for cell in row)\<close>, for the game and for the search.\<close>

definition is_full_static :: "board \<Rightarrow> bool" where
  "is_full_static b = list_all (\<lambda>cell. cell \<noteq> blank) (concat b)"

definition is_board_full :: "game \<Rightarrow> bool" where
  "is_board_full g = is_full_static (board g)"

text \<open>The nine coordinates in the order of the nested \<^verbatim>\<open>range(3)\<close> loops.\<close>

definition cells :: "(nat \<times> nat) list" where
  "cells = [(0, 0), (0, 1), (0, 2), (1, 0), (1, 1), (1, 2), (2, 0), (2, 1), (2, 2)]"

definition empty_cells_of :: "board \<Rightarrow> (nat \<times> nat) list" where
  "empty_cells_of b = filter (\<lambda>(i, j). b ! i ! j = blank) cells"

definition get_empty_cells :: "game \<Rightarrow> (nat \<times> nat) list" where
  "get_empty_cells g = empty_cells_of (board g)"

section \<open>MinimaxAI\<close>

record minimax_ai =
  ai_player :: cell
  human_player :: cell
  difficulty :: Difficulty

definition evaluate :: "minimax_ai \<Rightarrow> board \<Rightarrow> int" where
  "evaluate ai b =
     (let winner = check_winner_static b
      in if winner = Some (ai_player ai) then 10
         else if winner = Some (human_player ai) then -10
         else 0)"

text \<open>
  A loop whose body may fail to return: the state is threaded through the elements and
  the first \<open>None\<close> ends the loop.
\<close>

fun fold_opt :: "('a \<Rightarrow> 's \<Rightarrow> 's option) \<Rightarrow> 'a list \<Rightarrow> 's \<Rightarrow> 's option" where
  "fold_opt f [] s = Some s"
| "fold_opt f (x # xs) s = (case f x s of None \<Rightarrow> None | Some s' \<Rightarrow> fold_opt f xs s')"

text \<open>
  \<^verbatim>\<open>minimax(board, depth, is_maximizing)\<close>. The board is one mutable object that every
  recursive call writes and restores, so the model threads it: the result is the score
  together with the board as the call leaves it. The first argument after the search
  object bounds the depth of the recursion (the interpreter's recursion limit); \<open>None\<close>
  is a call that does not return within it.
\<close>

fun minimax :: "minimax_ai \<Rightarrow> nat \<Rightarrow> board \<Rightarrow> int \<Rightarrow> bool \<Rightarrow> (pynum \<times> board) option" where
  "minimax ai 0 b depth is_maximizing = None"
| "minimax ai (Suc fuel) b depth is_maximizing =
     (let score = evaluate ai b
      in if score = 10 then Some (Fin (score - depth), b)
         else if score = -10 then Some (Fin (score + depth), b)
         else if is_full_static b then Some (Fin 0, b)
         else if is_maximizing then
           fold_opt
             (\<lambda>(i, j) (best, b).
                if b ! i ! j = blank then
                  (case minimax ai fuel (place b i j (ai_player ai)) (depth + 1) False of
                     None \<Rightarrow> None
                   | Some (v, b') \<Rightarrow> Some (py_max best v, place b' i j blank))
                else Some (best, b))
             cells (NegInf, b)
         else
           fold_opt
             (\<lambda>(i, j) (best, b).
                if b ! i ! j = blank then
                  (case minimax ai fuel (place b i j (human_player ai)) (depth + 1) True of
                     None \<Rightarrow> None
                   | Some (v, b') \<Rightarrow> Some (py_min best v, place b' i j blank))
                else Some (best, b))
             cells (PosInf, b))"

text \<open>
  The random source of one call of \<^verbatim>\<open>find_best_move\<close>: the value of
  \<^verbatim>\<open>random.random()\<close> and the draw behind \<^verbatim>\<open>random.choice\<close>, which returns the element
  at a position below the length of its (non-empty) argument.
\<close>

record rng =
  random_random :: real
  random_draw :: nat

definition random_choice :: "rng \<Rightarrow> 'a list \<Rightarrow> 'a" where
  "random_choice r xs = xs ! (random_draw r mod length xs)"

definition coord :: "nat \<times> nat \<Rightarrow> int \<times> int" where
  "coord c = (int (fst c), int (snd c))"

text \<open>
  The top-level loop of \<^verbatim>\<open>find_best_move\<close> over the working copy:
  the state is \<^verbatim>\<open>(best_val, best_moves, board_copy)\<close>.
\<close>

definition search_top ::
  "minimax_ai \<Rightarrow> nat \<Rightarrow> board \<Rightarrow> (pynum \<times> (nat \<times> nat) list \<times> board) option" where
  "search_top ai fuel board_copy =
     fold_opt
       (\<lambda>(i, j) (best_val, best_moves, bc).
          if bc ! i ! j = blank then
            (case minimax ai fuel (place bc i j (ai_player ai)) 0 False of
               None \<Rightarrow> None
             | Some (move_val, bc') \<Rightarrow>
                 if py_lt best_val move_val
                 then Some (move_val, [(i, j)], place bc' i j blank)
                 else if move_val = best_val
                 then Some (best_val, best_moves @ [(i, j)], place bc' i j blank)
                 else Some (best_val, best_moves, place bc' i j blank))
          else Some (best_val, best_moves, bc))
       cells (NegInf, [], board_copy)"

text \<open>
  \<^verbatim>\<open>find_best_move(board)\<close> returns the chosen coordinates, or \<^verbatim>\<open>(-1, -1)\<close>; the model
  returns with them the caller's board as the call leaves it. The search works on
  \<^verbatim>\<open>copy.deepcopy(board)\<close>, an equal value that shares nothing with the argument.
\<close>

definition find_best_move ::
  "minimax_ai \<Rightarrow> nat \<Rightarrow> rng \<Rightarrow> board \<Rightarrow> ((int \<times> int) \<times> board) option" where
  "find_best_move ai fuel r b =
     (let empty_cells = empty_cells_of b
      in if difficulty ai = EASY
         then Some (if empty_cells \<noteq> [] then coord (random_choice r empty_cells) else (-1, -1), b)
         else
           (case search_top ai fuel b of
              None \<Rightarrow> None
            | Some (best_val, best_moves, board_copy) \<Rightarrow>
                if difficulty ai = MEDIUM
                then if random_random r < 3 / 10 \<and> empty_cells \<noteq> []
                     then Some (coord (random_choice r empty_cells), b)
                     else Some (if best_moves \<noteq> [] then coord (random_choice r best_moves)
                                else (-1, -1), b)
                else Some (if best_moves \<noteq> [] then coord (random_choice r best_moves)
                           else (-1, -1), b)))"

section \<open>GameStats\<close>

text \<open>
  The score record is the dictionary \<^verbatim>\<open>stats\<close>; \<^verbatim>\<open>difficulty_wins\<close> is itself a
  dictionary from the difficulty's name to a count.
\<close>

record stats =
  wins :: int
  losses :: int
  draws :: int
  win_streak :: int
  best_time :: pynum
  games_played :: int
  difficulty_wins :: "string \<rightharpoonup> int"

definition default_stats :: stats where
  "default_stats =
     \<lparr>wins = 0, losses = 0, draws = 0, win_streak = 0, best_time = PosInf, games_played = 0,
      difficulty_wins = [''EASY'' \<mapsto> 0, ''MEDIUM'' \<mapsto> 0, ''HARD'' \<mapsto> 0]\<rparr>"

text \<open>
  \<^verbatim>\<open>update_game(result, time_taken, difficulty)\<close> updates the dictionary in place, one
  statement after the other, so a \<^verbatim>\<open>KeyError\<close> from
  \<^verbatim>\<open>stats['difficulty_wins'][difficulty] += 1\<close> leaves the earlier increments done. The model
  returns the error, if any, and the record as the call leaves it. The closing
  \<^verbatim>\<open>save_stats()\<close> writes a file and swallows every exception; it does not touch the record.
\<close>

definition update_game :: "stats \<Rightarrow> string \<Rightarrow> pynum \<Rightarrow> string \<Rightarrow> py_error option \<times> stats" where
  "update_game st result time_taken diff =
     (let st1 = st\<lparr>games_played := games_played st + 1\<rparr>
      in if result = ''W'' then
           (let st2 = st1\<lparr>wins := wins st1 + 1\<rparr>;
                st3 = st2\<lparr>win_streak := win_streak st2 + 1\<rparr>
            in case difficulty_wins st3 diff of
                 None \<Rightarrow> (Some KeyError, st3)
               | Some n \<Rightarrow>
                   (let st4 = st3\<lparr>difficulty_wins := (difficulty_wins st3)(diff \<mapsto> n + 1)\<rparr>
                    in if py_lt time_taken (best_time st4)
                       then (None, st4\<lparr>best_time := time_taken\<rparr>)
                       else (None, st4)))
         else if result = ''L'' then
           (let st2 = st1\<lparr>losses := losses st1 + 1\<rparr>
            in (None, st2\<lparr>win_streak := 0\<rparr>))
         else
           (let st2 = st1\<lparr>draws := draws st1 + 1\<rparr>
            in (None, st2\<lparr>win_streak := 0\<rparr>)))"

text \<open>\<^verbatim>\<open>update_stats(stats, result, time_taken, difficulty)\<close> of the web front end: the same statements over the dictionary it is given.\<close>

definition update_stats :: "stats \<Rightarrow> string \<Rightarrow> pynum \<Rightarrow> string \<Rightarrow> py_error option \<times> stats" where
  "update_stats st result time_taken diff =
     (let st1 = st\<lparr>games_played := games_played st + 1\<rparr>
      in if result = ''W'' then
           (let st2 = st1\<lparr>wins := wins st1 + 1\<rparr>;
                st3 = st2\<lparr>win_streak := win_streak st2 + 1\<rparr>
            in case difficulty_wins st3 diff of
                 None \<Rightarrow> (Some KeyError, st3)
               | Some n \<Rightarrow>
                   (let st4 = st3\<lparr>difficulty_wins := (difficulty_wins st3)(diff \<mapsto> n + 1)\<rparr>
                    in if py_lt time_taken (best_time st4)
                       then (None, st4\<lparr>best_time := time_taken\<rparr>)
                       else (None, st4)))
         else if result = ''L'' then
           (let st2 = st1\<lparr>losses := losses st1 + 1\<rparr>
            in (None, st2\<lparr>win_streak := 0\<rparr>))
         else
           (let st2 = st1\<lparr>draws := draws st1 + 1\<rparr>
            in (None, st2\<lparr>win_streak := 0\<rparr>)))"

section \<open>Persistence of the score record\<close>

text \<open>
  \<^verbatim>\<open>self.stats\<close> is a Python value: a dictionary with string keys whose values are numbers
  and one nested dictionary. Python values, as far as JSON carries them; a dictionary is
  the list of its items in insertion order, and its keys are distinct.
\<close>

datatype pyval =
    PNone
  | PBool bool
  | PNum pynum
  | PStr string
  | PList "pyval list"
  | PDict "(string \<times> pyval) list"

primrec py_ok :: "pyval \<Rightarrow> bool" where
  "py_ok PNone = True"
| "py_ok (PBool t) = True"
| "py_ok (PNum n) = True"
| "py_ok (PStr s) = True"
| "py_ok (PList xs) = list_all id (map py_ok xs)"
| "py_ok (PDict kvs) = (distinct (map fst kvs) \<and> list_all snd (map (map_prod id py_ok) kvs))"

text \<open>
  The content of the file is kept as the JSON document it spells. Besides the values of
  the JSON grammar there are the two literals \<^verbatim>\<open>Infinity\<close> and \<^verbatim>\<open>-Infinity\<close>, which the
  module writes for the float infinities and reads back. (Finite floats and \<^verbatim>\<open>NaN\<close> are
  left out: the program stores integers and the infinity only.)
\<close>

datatype json =
    JNull
  | JBool bool
  | JInt int
  | JInfinity
  | JNegInfinity
  | JString string
  | JArray "json list"
  | JObject "(string \<times> json) list"

text \<open>
  \<^verbatim>\<open>json.dump\<close> and \<^verbatim>\<open>json.load\<close> are calls into Python's standard library, not code of
  the program; they are modelled from the documentation of the \<^verbatim>\<open>json\<close> module. Encoding
  maps a dictionary to an object, a list to an array, a string to a string, an integer
  to a number, \<^verbatim>\<open>True\<close>, \<^verbatim>\<open>False\<close>, \<^verbatim>\<open>None\<close> to \<^verbatim>\<open>true\<close>, \<^verbatim>\<open>false\<close>, \<^verbatim>\<open>null\<close>, and (with the
  default \<^verbatim>\<open>allow_nan=True\<close>) the float infinities to \<^verbatim>\<open>Infinity\<close> and \<^verbatim>\<open>-Infinity\<close>.
  Decoding is the converse table; of a name that is repeated in an object the last
  value is kept.
\<close>

primrec json_dump :: "pyval \<Rightarrow> json" where
  "json_dump PNone = JNull"
| "json_dump (PBool t) = JBool t"
| "json_dump (PNum n) = (case n of NegInf \<Rightarrow> JNegInfinity | Fin i \<Rightarrow> JInt i | PosInf \<Rightarrow> JInfinity)"
| "json_dump (PStr s) = JString s"
| "json_dump (PList xs) = JArray (map json_dump xs)"
| "json_dump (PDict kvs) = JObject (map (map_prod id json_dump) kvs)"

text \<open>\<^verbatim>\<open>d[k] = v\<close> on a dictionary, and the dictionary built from a sequence of pairs.\<close>

definition dict_set :: "(string \<times> 'v) list \<Rightarrow> string \<Rightarrow> 'v \<Rightarrow> (string \<times> 'v) list" where
  "dict_set d k v =
     (if k \<in> set (map fst d) then map (\<lambda>kv. if fst kv = k then (k, v) else kv) d
      else d @ [(k, v)])"

definition dict_of_pairs :: "(string \<times> 'v) list \<Rightarrow> (string \<times> 'v) list" where
  "dict_of_pairs kvs = foldl (\<lambda>d kv. dict_set d (fst kv) (snd kv)) [] kvs"

primrec json_load :: "json \<Rightarrow> pyval" where
  "json_load JNull = PNone"
| "json_load (JBool t) = PBool t"
| "json_load (JInt i) = PNum (Fin i)"
| "json_load JInfinity = PNum PosInf"
| "json_load JNegInfinity = PNum NegInf"
| "json_load (JString s) = PStr s"
| "json_load (JArray xs) = PList (map json_load xs)"
| "json_load (JObject kvs) = PDict (dict_of_pairs (map (map_prod id json_load) kvs))"

text \<open>
  The statistics file: absent, present without being a readable JSON text, or holding
  a document; and whether it can be opened for writing.
\<close>

datatype file_state = Missing | Corrupt | Holds json

record disk =
  stats_file :: file_state
  writable :: bool

text \<open>
  \<^verbatim>\<open>save_stats\<close> writes \<^verbatim>\<open>self.stats\<close> and swallows every exception, so a file that cannot
  be written stays as it is. \<^verbatim>\<open>load_stats\<close> replaces \<^verbatim>\<open>self.stats\<close> by the decoded file
  when the file exists and decodes, and otherwise leaves it.
\<close>

definition save_stats :: "pyval \<Rightarrow> disk \<Rightarrow> disk" where
  "save_stats st d = (if writable d then d\<lparr>stats_file := Holds (json_dump st)\<rparr> else d)"

definition load_stats :: "pyval \<Rightarrow> disk \<Rightarrow> pyval" where
  "load_stats st d = (case stats_file d of Missing \<Rightarrow> st | Corrupt \<Rightarrow> st | Holds j \<Rightarrow> json_load j)"

text \<open>
  The dictionary a score record stands for, \<open>dw\<close> the items of \<^verbatim>\<open>difficulty_wins\<close>.
\<close>

definition stats_dict :: "stats \<Rightarrow> (string \<times> int) list \<Rightarrow> pyval" where
  "stats_dict st dw =
     PDict [(''wins'', PNum (Fin (wins st))),
            (''losses'', PNum (Fin (losses st))),
            (''draws'', PNum (Fin (draws st))),
            (''win_streak'', PNum (Fin (win_streak st))),
            (''best_time'', PNum (best_time st)),
            (''games_played'', PNum (Fin (games_played st))),
            (''difficulty_wins'', PDict (map (\<lambda>kv. (fst kv, PNum (Fin (snd kv)))) dw))]"

text \<open>
  The functions \<^verbatim>\<open>save_stats(stats)\<close> and \<^verbatim>\<open>load_stats()\<close> of the web front end, on its own
  file: the same write, and a read that returns the decoded file or else the default
  dictionary.
\<close>

definition save_stats_web :: "pyval \<Rightarrow> disk \<Rightarrow> disk" where
  "save_stats_web st d = (if writable d then d\<lparr>stats_file := Holds (json_dump st)\<rparr> else d)"

definition load_stats_web :: "disk \<Rightarrow> pyval" where
  "load_stats_web d =
     (case stats_file d of
        Missing \<Rightarrow> stats_dict default_stats [(''EASY'', 0), (''MEDIUM'', 0), (''HARD'', 0)]
      | Corrupt \<Rightarrow> stats_dict default_stats [(''EASY'', 0), (''MEDIUM'', 0), (''HARD'', 0)]
      | Holds j \<Rightarrow> json_load j)"

text \<open>The item of a dictionary and the member of an object under a key.\<close>

definition py_item :: "pyval \<Rightarrow> string \<Rightarrow> pyval option" where
  "py_item v k = (case v of PDict kvs \<Rightarrow> map_of kvs k | _ \<Rightarrow> None)"

definition json_field :: "json \<Rightarrow> string \<Rightarrow> json option" where
  "json_field j k = (case j of JObject kvs \<Rightarrow> map_of kvs k | _ \<Rightarrow> None)"

section \<open>The vocabulary of the specification\<close>

text \<open>The eight lines in the order of the scan: rows, columns, the two diagonals.\<close>

definition lines :: "(nat \<times> nat) list list" where
  "lines =
     [ [(0, 0), (0, 1), (0, 2)], [(1, 0), (1, 1), (1, 2)], [(2, 0), (2, 1), (2, 2)],
      [(0, 0), (1, 0), (2, 0)], [(0, 1), (1, 1), (2, 1)], [(0, 2), (1, 2), (2, 2)],
      [(0, 0), (1, 1), (2, 2)], [(0, 2), (1, 1), (2, 0)] ]"

definition cell_at :: "board \<Rightarrow> nat \<times> nat \<Rightarrow> cell" where
  "cell_at b c = b ! fst c ! snd c"

text \<open>A line uniformly occupied by the symbol \<open>s\<close>, which is not the blank.\<close>

definition line_of :: "board \<Rightarrow> cell \<Rightarrow> (nat \<times> nat) list \<Rightarrow> bool" where
  "line_of b s l = (s \<noteq> blank \<and> list_all (\<lambda>c. cell_at b c = s) l)"

text \<open>A completed line: uniformly occupied by the symbol of its first cell.\<close>

definition complete :: "board \<Rightarrow> (nat \<times> nat) list \<Rightarrow> bool" where
  "complete b l = line_of b (cell_at b (hd l)) l"

text \<open>The board after writing the cell \<open>c\<close>, and the number of blank cells.\<close>

definition put :: "board \<Rightarrow> nat \<times> nat \<Rightarrow> cell \<Rightarrow> board" where
  "put b c s = place b (fst c) (snd c) s"

definition n_empty :: "board \<Rightarrow> nat" where
  "n_empty b = length (empty_cells_of b)"

text \<open>The search object as the program builds it: two distinct symbols, neither the blank.\<close>

definition wf_ai :: "minimax_ai \<Rightarrow> bool" where
  "wf_ai ai = (ai_player ai \<noteq> blank \<and> human_player ai \<noteq> blank \<and> ai_player ai \<noteq> human_player ai)"

text \<open>The symbol a level of the search places, and how it combines the scores below it.\<close>

definition mover :: "minimax_ai \<Rightarrow> bool \<Rightarrow> cell" where
  "mover ai is_maximizing = (if is_maximizing then ai_player ai else human_player ai)"

definition best_of :: "bool \<Rightarrow> int set \<Rightarrow> int" where
  "best_of is_maximizing A = (if is_maximizing then Max A else Min A)"

text \<open>
  One pass of the body of the search loops at a cell: try the cell when it is blank,
  combine the score, restore the cell. \<open>R\<close> is the recursive call.
\<close>

definition step_cell ::
  "(board \<Rightarrow> (pynum \<times> board) option) \<Rightarrow> (pynum \<Rightarrow> pynum \<Rightarrow> pynum) \<Rightarrow> cell \<Rightarrow>
   nat \<times> nat \<Rightarrow> pynum \<times> board \<Rightarrow> (pynum \<times> board) option" where
  "step_cell R comb s =
     (\<lambda>(i, j) (best, b).
        if b ! i ! j = blank then
          (case R (place b i j s) of
             None \<Rightarrow> None
           | Some (v, b') \<Rightarrow> Some (comb best v, place b' i j blank))
        else Some (best, b))"

text \<open>One pass of the body of the top-level loop at a cell, \<open>R\<close> the call of the search.\<close>

definition step_top ::
  "(board \<Rightarrow> (pynum \<times> board) option) \<Rightarrow> cell \<Rightarrow>
   nat \<times> nat \<Rightarrow> pynum \<times> (nat \<times> nat) list \<times> board \<Rightarrow>
   (pynum \<times> (nat \<times> nat) list \<times> board) option" where
  "step_top R s =
     (\<lambda>(i, j) (best_val, best_moves, bc).
        if bc ! i ! j = blank then
          (case R (place bc i j s) of
             None \<Rightarrow> None
           | Some (move_val, bc') \<Rightarrow>
               if py_lt best_val move_val
               then Some (move_val, [(i, j)], place bc' i j blank)
               else if move_val = best_val
               then Some (best_val, best_moves @ [(i, j)], place bc' i j blank)
               else Some (best_val, best_moves, place bc' i j blank))
        else Some (best_val, best_moves, bc))"

text \<open>The same pass on the scores alone, \<open>g\<close> the score of each cell.\<close>

definition pick_top ::
  "(nat \<times> nat \<Rightarrow> bool) \<Rightarrow> (nat \<times> nat \<Rightarrow> int) \<Rightarrow> nat \<times> nat \<Rightarrow>
   pynum \<times> (nat \<times> nat) list \<Rightarrow> pynum \<times> (nat \<times> nat) list" where
  "pick_top P g c st =
     (if P c then
        (if py_lt (fst st) (Fin (g c)) then (Fin (g c), [c])
         else if Fin (g c) = fst st then (fst st, snd st @ [c])
         else st)
      else st)"

text \<open>
  The top-level evaluation of a cell: place the computer's symbol, then
  \<^verbatim>\<open>minimax(board, 0, False)\<close>.
\<close>

definition top_eval :: "minimax_ai \<Rightarrow> nat \<Rightarrow> board \<Rightarrow> nat \<times> nat \<Rightarrow> pynum option" where
  "top_eval ai fuel b c = map_option fst (minimax ai fuel (put b c (ai_player ai)) 0 False)"

text \<open>
  The best-set: the empty cells whose top-level evaluation is a score that no other
  empty cell's evaluation exceeds, in the order of the scan.
\<close>

definition best_cells :: "minimax_ai \<Rightarrow> nat \<Rightarrow> board \<Rightarrow> (nat \<times> nat) list" where
  "best_cells ai fuel b =
     filter
       (\<lambda>c. case top_eval ai fuel b c of
               None \<Rightarrow> False
             | Some v \<Rightarrow>
                 list_all
                   (\<lambda>c'. case top_eval ai fuel b c' of None \<Rightarrow> False | Some v' \<Rightarrow> \<not> py_lt v v')
                   (empty_cells_of b))
       (empty_cells_of b)"

section \<open>Concrete positions\<close>

definition full_game :: game where
  "full_game = \<lparr>board = [ [''X'', ''O'', ''X''], [''X'', ''O'', ''O''], [''O'', ''X'', ''X''] ],
                 current_player = ''X'', move_count = 9\<rparr>"

definition two_lines_game :: game where
  "two_lines_game = \<lparr>board = [ [''O'', ''X'', '' ''], [''O'', ''X'', '' ''], [''O'', ''X'', '' ''] ],
                 current_player = ''X'', move_count = 6\<rparr>"

text \<open>The search object of both front ends, \<^verbatim>\<open>MinimaxAI('O', 'X', difficulty)\<close>.\<close>

definition ox :: "Difficulty \<Rightarrow> minimax_ai" where
  "ox d = \<lparr>ai_player = ''O'', human_player = ''X'', difficulty = d\<rparr>"

text \<open>
  A position with two blank cells, the computer to move: the human threatens the left
  column, and the computer has no line to complete.
\<close>

definition late_board :: board where
  "late_board = [ [''X'', ''O'', ''X''], [''X'', ''O'', ''O''], ['' '', ''X'', '' ''] ]"

text \<open>
  A position of a legal game, the computer to move, where the human threatens three
  lines at once: the top row, the middle column and the main diagonal.
\<close>

definition fork_board :: board where
  "fork_board = [ [''X'', ''X'', '' ''], [''O'', ''X'', '' ''], [''O'', '' '', '' ''] ]"

text \<open>
  A position where the computer can complete the top row while the human threatens the
  middle row.
\<close>

definition win_board :: board where
  "win_board = [ [''O'', ''O'', '' ''], [''X'', ''X'', '' ''], [''X'', '' '', '' ''] ]"

text \<open>A disk without the statistics file, and the items of the fresh \<^verbatim>\<open>difficulty_wins\<close>.\<close>

definition fresh_disk :: disk where
  "fresh_disk = \<lparr>stats_file = Missing, writable = True\<rparr>"

definition default_difficulty_wins :: "(string \<times> int) list" where
  "default_difficulty_wins = [(''EASY'', 0), (''MEDIUM'', 0), (''HARD'', 0)]"

section \<open>Well-formed boards\<close>

lemma length3_form: "length xs = 3 \<Longrightarrow> \<exists>x y z. xs = [x, y, z]"
  by (cases xs; cases "tl xs"; cases "tl (tl xs)") auto

lemma wf_board_form:
  assumes "wf_board b"
  obtains a0 a1 a2 b0 b1 b2 c0 c1 c2 where
    "b = [ [a0, a1, a2], [b0, b1, b2], [c0, c1, c2] ]"
proof -
  from assms have "length b = 3" by (simp add: wf_board_def)
  then obtain r0 r1 r2 where b: "b = [r0, r1, r2]" using length3_form by blast
  with assms have "length r0 = 3" "length r1 = 3" "length r2 = 3"
    by (simp_all add: wf_board_def)
  then have "\<exists>x y z. r0 = [x, y, z]" "\<exists>x y z. r1 = [x, y, z]" "\<exists>x y z. r2 = [x, y, z]"
    by (simp_all add: length3_form)
  then obtain a0 a1 a2 b0 b1 b2 c0 c1 c2 where
    "r0 = [a0, a1, a2]" "r1 = [b0, b1, b2]" "r2 = [c0, c1, c2]"
    by blast
  with b that show thesis by blast
qed

lemma nth3: "[x, y, z] ! 0 = x" "[x, y, z] ! 1 = y" "[x, y, z] ! 2 = z"
  by simp_all

lemma lt3: "(n::nat) < 3 \<longleftrightarrow> n = 0 \<or> n = 1 \<or> n = 2"
  by arith

lemma in_cells: "c \<in> set cells \<longleftrightarrow> fst c < 3 \<and> snd c < 3"
  by (cases c) (auto simp: cells_def lt3)

lemma wf_board_rows: "wf_board b \<Longrightarrow> i < 3 \<Longrightarrow> length (b ! i) = 3"
  by (simp add: wf_board_def list_all_length)

lemma wf_place: "wf_board b \<Longrightarrow> wf_board (place b i j s)"
proof (cases "i < length b")
  case True
  assume "wf_board b"
  with True show ?thesis
    by (auto simp: wf_board_def place_def list_all_length nth_list_update)
next
  case False
  assume "wf_board b"
  with False show ?thesis
    by (simp add: place_def list_update_beyond)
qed

lemma cell_at_place:
  assumes "wf_board b" "c \<in> set cells" "c' \<in> set cells"
  shows "cell_at (place b (fst c) (snd c) s) c' = (if c' = c then s else cell_at b c')"
proof -
  from assms have lt: "fst c < 3" "snd c < 3" "fst c' < 3" "snd c' < 3"
    by (simp_all add: in_cells)
  from assms(1) have len: "length b = 3" by (simp add: wf_board_def)
  show ?thesis
  proof (cases "fst c' = fst c")
    case True
    with lt len wf_board_rows[OF assms(1) lt(1)] show ?thesis
      by (auto simp: cell_at_def place_def nth_list_update prod_eq_iff)
  next
    case False
    with lt len show ?thesis
      by (auto simp: cell_at_def place_def nth_list_update)
  qed
qed

lemma place_undo:
  assumes "i < length b" "b ! i ! j = blank"
  shows "place (place b i j s) i j blank = b"
proof -
  have "((b ! i)[j := s])[j := blank] = b ! i"
    using assms(2) by (metis list_update_id list_update_overwrite)
  with assms(1) show ?thesis
    by (simp add: place_def)
qed

section \<open>The winner scan and the eight lines\<close>

lemma chain8:
  assumes "f y1 = x1" "f y2 = x2" "f y3 = x3" "f y4 = x4" "f y5 = x5" "f y6 = x6" "f y7 = x7" "f y8 = x8"
    and "P1 = Q1" "P2 = Q2" "P3 = Q3" "P4 = Q4" "P5 = Q5" "P6 = Q6" "P7 = Q7" "P8 = Q8"
  shows "(case (if P1 then Some x1 else if P2 then Some x2 else if P3 then Some x3 else None) of
            Some w \<Rightarrow> Some w
          | None \<Rightarrow>
             (case (if P4 then Some x4 else if P5 then Some x5 else if P6 then Some x6 else None) of
                Some w \<Rightarrow> Some w
              | None \<Rightarrow> (if P7 then Some x7 else if P8 then Some x8 else None)))
         = map_option f (if Q1 then Some y1 else if Q2 then Some y2 else if Q3 then Some y3
             else if Q4 then Some y4 else if Q5 then Some y5 else if Q6 then Some y6
             else if Q7 then Some y7 else if Q8 then Some y8 else None)"
  by (simp add: assms)

lemma check_winner_static_first:
  "wf_board b \<Longrightarrow>
   check_winner_static b = map_option (\<lambda>l. cell_at b (hd l)) (find (complete b) lines)"
  apply (erule wf_board_form)
  apply hypsubst
  apply (simp only: check_winner_static_def check_rows.simps check_cols.simps lines_def
      find.simps complete_def line_of_def list.pred_inject cell_at_def nth3 fst_conv snd_conv list.sel)
  apply (rule chain8)
  apply (simp_all only: list.sel nth3 fst_conv snd_conv)
  apply auto
  done

lemma lines_cells: "l \<in> set lines \<Longrightarrow> c \<in> set l \<Longrightarrow> c \<in> set cells"
  unfolding in_cells lines_def by (simp, elim disjE) force+

lemma lines_nonempty: "l \<in> set lines \<Longrightarrow> hd l \<in> set l"
  unfolding lines_def by (simp, elim disjE) simp_all

lemma line_of_symbol: "l \<in> set lines \<Longrightarrow> line_of b s l \<Longrightarrow> cell_at b (hd l) = s"
  using lines_nonempty[of l] by (simp add: line_of_def list_all_iff)

lemma complete_iff_line_of: "l \<in> set lines \<Longrightarrow> complete b l \<longleftrightarrow> (\<exists>s. line_of b s l)"
proof
  assume "complete b l"
  then show "\<exists>s. line_of b s l"
    unfolding complete_def by (rule exI)
next
  assume l: "l \<in> set lines" and "\<exists>s. line_of b s l"
  then obtain s where s: "line_of b s l" by blast
  with l have "cell_at b (hd l) = s" by (rule line_of_symbol)
  with s show "complete b l" by (simp add: complete_def)
qed

lemma check_winner_static_None:
  "wf_board b \<Longrightarrow> check_winner_static b = None \<longleftrightarrow> (\<forall>l\<in>set lines. \<not> complete b l)"
  by (auto simp: check_winner_static_first find_None_iff)

lemma check_winner_static_Some:
  assumes "wf_board b" "check_winner_static b = Some s"
  shows "\<exists>l\<in>set lines. line_of b s l"
proof -
  from assms obtain l where f: "find (complete b) lines = Some l" and s: "s = cell_at b (hd l)"
    by (auto simp: check_winner_static_first)
  from f have "l \<in> set lines" "complete b l"
    by (auto simp: find_Some_iff)
  with s show ?thesis
    by (auto simp: complete_def)
qed

lemma check_winner_static_unique:
  assumes "wf_board b" "l \<in> set lines" "line_of b s l"
    and "\<forall>l'\<in>set lines. \<forall>s'. line_of b s' l' \<longrightarrow> s' = s"
  shows "check_winner_static b = Some s"
proof -
  from assms(2,3) have "\<exists>l\<in>set lines. complete b l"
    using complete_iff_line_of by blast
  with assms(1) obtain w where w: "check_winner_static b = Some w"
    using check_winner_static_None by (cases "check_winner_static b") auto
  then obtain l' where "l' \<in> set lines" "line_of b w l'"
    using check_winner_static_Some[OF assms(1)] by blast
  with assms(4) have "w = s" by blast
  with w show ?thesis by simp
qed

section \<open>Empty cells, indexing and comparisons\<close>

lemma empty_cells_of_set:
  "set (empty_cells_of b) = {c \<in> set cells. cell_at b c = blank}"
  by (auto simp: empty_cells_of_def cell_at_def)

lemma is_full_static_iff:
  assumes "wf_board b"
  shows "is_full_static b \<longleftrightarrow> empty_cells_of b = []"
  using assms
  apply (elim wf_board_form)
  apply (simp add: is_full_static_def empty_cells_of_def cells_def filter_empty_conv)
  done

lemma py_index_in: "0 \<le> i \<Longrightarrow> i < int (length xs) \<Longrightarrow> py_index xs i = Inr (nat i)"
  by (simp add: py_index_def)

lemma py_index_neg: "i < 0 \<Longrightarrow> - int (length xs) \<le> i \<Longrightarrow> py_index xs i = py_index xs (i + int (length xs))"
  by (simp add: py_index_def Let_def)

lemma py_index_out: "i < - int (length xs) \<or> int (length xs) \<le> i \<Longrightarrow> py_index xs i = Inl IndexError"
  by (auto simp: py_index_def Let_def)

lemma py_index_Inr: "py_index xs i = Inr r \<Longrightarrow> r < length xs"
  by (auto simp: py_index_def Let_def split: if_splits)

lemma py_index_range:
  assumes "- int (length xs) \<le> i" "i < int (length xs)"
  shows "\<exists>r. py_index xs i = Inr r"
proof (cases "i < 0")
  case True
  with assms show ?thesis by (simp add: py_index_def Let_def)
next
  case False
  with assms show ?thesis by (simp add: py_index_def Let_def)
qed

lemma py_lt_irrefl: "\<not> py_lt a a"
  by (cases a) simp_all

lemma py_lt_asym: "py_lt a b \<Longrightarrow> \<not> py_lt b a"
  by (cases a; cases b) simp_all

lemma py_lt_trans: "py_lt a b \<Longrightarrow> py_lt b c \<Longrightarrow> py_lt a c"
  by (cases a; cases b; cases c) simp_all

section \<open>The search loops\<close>

lemma empty_cells_of_filter: "empty_cells_of b = filter (\<lambda>c. cell_at b c = blank) cells"
  unfolding empty_cells_of_def cell_at_def
  by (rule filter_cong) auto

lemma cell_at_put:
  "wf_board b \<Longrightarrow> c \<in> set cells \<Longrightarrow> c' \<in> set cells \<Longrightarrow>
   cell_at (put b c s) c' = (if c' = c then s else cell_at b c')"
  unfolding put_def by (rule cell_at_place)

lemma wf_put: "wf_board b \<Longrightarrow> wf_board (put b c s)"
  unfolding put_def by (rule wf_place)

lemma empty_cells_of_put:
  assumes "wf_board b" "c \<in> set cells" "s \<noteq> blank"
  shows "empty_cells_of (put b c s) = filter (\<lambda>c'. c' \<noteq> c) (empty_cells_of b)"
proof -
  have "filter (\<lambda>c'. cell_at (put b c s) c' = blank) cells
        = filter (\<lambda>c'. c' \<noteq> c \<and> cell_at b c' = blank) cells"
    using assms by (intro filter_cong refl) (simp add: cell_at_put)
  then show ?thesis
    by (simp add: empty_cells_of_filter conj_commute)
qed

lemma n_empty_put:
  assumes "wf_board b" "c \<in> set cells" "cell_at b c = blank" "s \<noteq> blank"
  shows "n_empty (put b c s) < n_empty b"
proof -
  from assms(2,3) have "c \<in> set (empty_cells_of b)"
    by (simp add: empty_cells_of_set)
  then have "length (filter (\<lambda>c'. c' \<noteq> c) (empty_cells_of b)) < length (empty_cells_of b)"
    by (rule length_filter_less) simp
  with assms show ?thesis
    by (simp add: n_empty_def empty_cells_of_put)
qed

lemma put_undo:
  assumes "wf_board b" "c \<in> set cells" "cell_at b c = blank"
  shows "place (put b c s) (fst c) (snd c) blank = b"
proof -
  from assms(1,2) have "fst c < length b"
    by (simp add: wf_board_def in_cells)
  with assms(3) show ?thesis
    unfolding put_def cell_at_def by (intro place_undo)
qed

lemma minimax_Suc:
  "minimax ai (Suc fuel) b depth is_maximizing =
     (if evaluate ai b = 10 then Some (Fin (10 - depth), b)
      else if evaluate ai b = - 10 then Some (Fin (- 10 + depth), b)
      else if is_full_static b then Some (Fin 0, b)
      else if is_maximizing then
        fold_opt (step_cell (\<lambda>b'. minimax ai fuel b' (depth + 1) False) py_max (ai_player ai))
          cells (NegInf, b)
      else
        fold_opt (step_cell (\<lambda>b'. minimax ai fuel b' (depth + 1) True) py_min (human_player ai))
          cells (PosInf, b))"
  by (simp add: step_cell_def Let_def)

declare minimax.simps(2) [simp del]

lemma step_cell_blank:
  assumes "cell_at b c = blank" "R (put b c s) = Some (v, b')"
  shows "step_cell R comb s c (best, b) = Some (comb best v, place b' (fst c) (snd c) blank)"
  using assms by (cases c) (simp add: step_cell_def cell_at_def put_def)

lemma step_cell_blank_None:
  assumes "cell_at b c = blank" "R (put b c s) = None"
  shows "step_cell R comb s c (best, b) = None"
  using assms by (cases c) (simp add: step_cell_def cell_at_def put_def)

lemma step_cell_occupied:
  assumes "cell_at b c \<noteq> blank"
  shows "step_cell R comb s c (best, b) = Some (best, b)"
  using assms by (cases c) (simp add: step_cell_def cell_at_def)

text \<open>The loop, when every recursive call returns and restores its board.\<close>

lemma fold_step_cell:
  assumes "wf_board b" "set cs \<subseteq> set cells"
    and "\<And>c. c \<in> set cs \<Longrightarrow> cell_at b c = blank \<Longrightarrow> R (put b c s) = Some (Fin (g c), put b c s)"
  shows "fold_opt (step_cell R comb s) cs (best, b)
         = Some (fold (\<lambda>c a. if cell_at b c = blank then comb a (Fin (g c)) else a) cs best, b)"
  using assms(2,3)
proof (induction cs arbitrary: best)
  case Nil
  then show ?case by simp
next
  case (Cons c cs)
  show ?case
  proof (cases "cell_at b c = blank")
    case True
    with Cons.prems have r: "R (put b c s) = Some (Fin (g c), put b c s)" by simp
    from Cons.prems have "c \<in> set cells" by simp
    with True assms(1) have "place (put b c s) (fst c) (snd c) blank = b"
      by (intro put_undo)
    with True r have "step_cell R comb s c (best, b) = Some (comb best (Fin (g c)), b)"
      by (simp add: step_cell_blank)
    with True Cons show ?thesis by simp
  next
    case False
    then have "step_cell R comb s c (best, b) = Some (best, b)"
      by (rule step_cell_occupied)
    with False Cons show ?thesis by simp
  qed
qed

text \<open>The loop, when a recursive call that returns restores its board.\<close>

lemma fold_step_cell_frame:
  assumes "wf_board b" "set cs \<subseteq> set cells"
    and "\<And>c v b'. c \<in> set cs \<Longrightarrow> cell_at b c = blank \<Longrightarrow> R (put b c s) = Some (v, b') \<Longrightarrow> b' = put b c s"
    and "fold_opt (step_cell R comb s) cs (best, b) = Some (best', b')"
  shows "b' = b"
  using assms(2,3,4)
proof (induction cs arbitrary: best)
  case Nil
  then show ?case by simp
next
  case (Cons c cs)
  show ?case
  proof (cases "cell_at b c = blank")
    case True
    from Cons.prems(3) obtain v b1 where r: "R (put b c s) = Some (v, b1)"
      using step_cell_blank_None[OF True, of R s comb best] by (cases "R (put b c s)") auto
    with True Cons.prems have b1: "b1 = put b c s" by simp
    from Cons.prems have "c \<in> set cells" by simp
    with True assms(1) have "place (put b c s) (fst c) (snd c) blank = b"
      by (intro put_undo)
    with True r b1 have "step_cell R comb s c (best, b) = Some (comb best v, b)"
      by (simp add: step_cell_blank)
    with Cons show ?thesis by simp
  next
    case False
    then have "step_cell R comb s c (best, b) = Some (best, b)"
      by (rule step_cell_occupied)
    with Cons show ?thesis by simp
  qed
qed

lemma py_max_Fin: "py_max (Fin a) (Fin b) = Fin (max a b)"
  by (simp add: py_max_def max_def)

lemma py_min_Fin: "py_min (Fin a) (Fin b) = Fin (min a b)"
  by (simp add: py_min_def min_def)

lemma py_max_NegInf: "py_max NegInf (Fin b) = Fin b"
  by (simp add: py_max_def)

lemma py_min_PosInf: "py_min PosInf (Fin b) = Fin b"
  by (simp add: py_min_def)

lemma Max_insert_max:
  "finite (S::int set) \<Longrightarrow> Max (insert (max a b) S) = Max (insert a (insert b S))"
  by (cases "S = {}") (simp_all add: max.assoc)

lemma Min_insert_min:
  "finite (S::int set) \<Longrightarrow> Min (insert (min a b) S) = Min (insert a (insert b S))"
  by (cases "S = {}") (simp_all add: min.assoc)

lemma fold_max_Fin:
  "fold (\<lambda>c a. if P c then py_max a (Fin (g c)) else a) cs (Fin a0)
   = Fin (Max (insert a0 (g ` {c \<in> set cs. P c})))"
proof (induction cs arbitrary: a0)
  case Nil
  then show ?case by simp
next
  case (Cons c cs)
  let ?S = "g ` {c \<in> set cs. P c}"
  have fin: "finite ?S" by simp
  show ?case
  proof (cases "P c")
    case True
    then have "{x \<in> set (c # cs). P x} = insert c {c \<in> set cs. P c}" by auto
    then have "g ` {x \<in> set (c # cs). P x} = insert (g c) ?S" by simp
    moreover have "Max (insert (max a0 (g c)) ?S) = Max (insert a0 (insert (g c) ?S))"
      using fin by (rule Max_insert_max)
    ultimately show ?thesis using True Cons.IH by (simp add: py_max_Fin)
  next
    case False
    then have "{x \<in> set (c # cs). P x} = {c \<in> set cs. P c}" by auto
    with False Cons.IH show ?thesis by simp
  qed
qed

lemma fold_min_Fin:
  "fold (\<lambda>c a. if P c then py_min a (Fin (g c)) else a) cs (Fin a0)
   = Fin (Min (insert a0 (g ` {c \<in> set cs. P c})))"
proof (induction cs arbitrary: a0)
  case Nil
  then show ?case by simp
next
  case (Cons c cs)
  let ?S = "g ` {c \<in> set cs. P c}"
  have fin: "finite ?S" by simp
  show ?case
  proof (cases "P c")
    case True
    then have "{x \<in> set (c # cs). P x} = insert c {c \<in> set cs. P c}" by auto
    then have "g ` {x \<in> set (c # cs). P x} = insert (g c) ?S" by simp
    moreover have "Min (insert (min a0 (g c)) ?S) = Min (insert a0 (insert (g c) ?S))"
      using fin by (rule Min_insert_min)
    ultimately show ?thesis using True Cons.IH by (simp add: py_min_Fin)
  next
    case False
    then have "{x \<in> set (c # cs). P x} = {c \<in> set cs. P c}" by auto
    with False Cons.IH show ?thesis by simp
  qed
qed

lemma fold_max_NegInf:
  assumes "\<exists>c\<in>set cs. P c"
  shows "fold (\<lambda>c a. if P c then py_max a (Fin (g c)) else a) cs NegInf
         = Fin (Max (g ` {c \<in> set cs. P c}))"
  using assms
proof (induction cs)
  case Nil
  then show ?case by simp
next
  case (Cons c cs)
  show ?case
  proof (cases "P c")
    case True
    then have "{x \<in> set (c # cs). P x} = insert c {c \<in> set cs. P c}" by auto
    then have "g ` {x \<in> set (c # cs). P x} = insert (g c) (g ` {c \<in> set cs. P c})" by simp
    with True show ?thesis by (simp add: py_max_NegInf fold_max_Fin)
  next
    case False
    then have "{x \<in> set (c # cs). P x} = {c \<in> set cs. P c}" by auto
    with False Cons show ?thesis by simp
  qed
qed

lemma fold_min_PosInf:
  assumes "\<exists>c\<in>set cs. P c"
  shows "fold (\<lambda>c a. if P c then py_min a (Fin (g c)) else a) cs PosInf
         = Fin (Min (g ` {c \<in> set cs. P c}))"
  using assms
proof (induction cs)
  case Nil
  then show ?case by simp
next
  case (Cons c cs)
  show ?case
  proof (cases "P c")
    case True
    then have "{x \<in> set (c # cs). P x} = insert c {c \<in> set cs. P c}" by auto
    then have "g ` {x \<in> set (c # cs). P x} = insert (g c) (g ` {c \<in> set cs. P c})" by simp
    with True show ?thesis by (simp add: py_min_PosInf fold_min_Fin)
  next
    case False
    then have "{x \<in> set (c # cs). P x} = {c \<in> set cs. P c}" by auto
    with False Cons show ?thesis by simp
  qed
qed

lemma mover_not_blank: "wf_ai ai \<Longrightarrow> mover ai m \<noteq> blank"
  by (simp add: wf_ai_def mover_def)

lemma not_full_empty_cell:
  assumes "wf_board b" "\<not> is_full_static b"
  shows "\<exists>c\<in>set cells. cell_at b c = blank"
proof -
  from assms have "empty_cells_of b \<noteq> []"
    by (simp add: is_full_static_iff)
  then obtain c where "c \<in> set (empty_cells_of b)"
    by (cases "empty_cells_of b") auto
  then show ?thesis
    by (auto simp: empty_cells_of_set)
qed

lemma minimax_step:
  assumes wf: "wf_board b" and ne: "\<not> is_full_static b"
    and sc: "evaluate ai b \<noteq> 10" "evaluate ai b \<noteq> - 10"
    and rec: "\<And>c. c \<in> set (empty_cells_of b) \<Longrightarrow>
       minimax ai fuel (put b c (mover ai m)) (d + 1) (\<not> m)
       = Some (Fin (g c), put b c (mover ai m))"
  shows "minimax ai (Suc fuel) b d m = Some (Fin (best_of m (g ` set (empty_cells_of b))), b)"
proof -
  let ?P = "\<lambda>c. cell_at b c = blank"
  have ex: "\<exists>c\<in>set cells. ?P c"
    using wf ne by (rule not_full_empty_cell)
  have E: "{c \<in> set cells. ?P c} = set (empty_cells_of b)"
    by (simp add: empty_cells_of_set)
  show ?thesis
  proof (cases m)
    case True
    have "fold_opt (step_cell (\<lambda>b'. minimax ai fuel b' (d + 1) False) py_max (ai_player ai))
            cells (NegInf, b)
          = Some (fold (\<lambda>c a. if ?P c then py_max a (Fin (g c)) else a) cells NegInf, b)"
      using wf subset_refl
    proof (rule fold_step_cell)
      fix c assume "c \<in> set cells" "?P c"
      then have "c \<in> set (empty_cells_of b)" by (simp add: empty_cells_of_set)
      from rec[OF this] True
      show "minimax ai fuel (put b c (ai_player ai)) (d + 1) False
            = Some (Fin (g c), put b c (ai_player ai))"
        by (simp add: mover_def)
    qed
    also have "fold (\<lambda>c a. if ?P c then py_max a (Fin (g c)) else a) cells NegInf
               = Fin (Max (g ` {c \<in> set cells. ?P c}))"
      using ex by (rule fold_max_NegInf)
    finally show ?thesis
      using True ne sc by (simp add: minimax_Suc E best_of_def)
  next
    case False
    have "fold_opt (step_cell (\<lambda>b'. minimax ai fuel b' (d + 1) True) py_min (human_player ai))
            cells (PosInf, b)
          = Some (fold (\<lambda>c a. if ?P c then py_min a (Fin (g c)) else a) cells PosInf, b)"
      using wf subset_refl
    proof (rule fold_step_cell)
      fix c assume "c \<in> set cells" "?P c"
      then have "c \<in> set (empty_cells_of b)" by (simp add: empty_cells_of_set)
      from rec[OF this] False
      show "minimax ai fuel (put b c (human_player ai)) (d + 1) True
            = Some (Fin (g c), put b c (human_player ai))"
        by (simp add: mover_def)
    qed
    also have "fold (\<lambda>c a. if ?P c then py_min a (Fin (g c)) else a) cells PosInf
               = Fin (Min (g ` {c \<in> set cells. ?P c}))"
      using ex by (rule fold_min_PosInf)
    finally show ?thesis
      using False ne sc by (simp add: minimax_Suc E best_of_def)
  qed
qed

lemma minimax_terminal:
  "evaluate ai b = 10 \<Longrightarrow> minimax ai (Suc fuel) b d m = Some (Fin (10 - d), b)"
  "evaluate ai b = - 10 \<Longrightarrow> minimax ai (Suc fuel) b d m = Some (Fin (- 10 + d), b)"
  "evaluate ai b \<noteq> 10 \<Longrightarrow> evaluate ai b \<noteq> - 10 \<Longrightarrow> is_full_static b \<Longrightarrow>
     minimax ai (Suc fuel) b d m = Some (Fin 0, b)"
  by (simp_all add: minimax_Suc)

lemma minimax_returns:
  assumes ai: "wf_ai ai"
  shows "wf_board b \<Longrightarrow> n_empty b < fuel \<Longrightarrow> \<exists>v. minimax ai fuel b d m = Some (Fin v, b)"
proof (induction fuel arbitrary: b d m)
  case 0
  then show ?case by simp
next
  case (Suc fuel)
  consider "evaluate ai b = 10" | "evaluate ai b = - 10"
    | "evaluate ai b \<noteq> 10" "evaluate ai b \<noteq> - 10" "is_full_static b"
    | "evaluate ai b \<noteq> 10" "evaluate ai b \<noteq> - 10" "\<not> is_full_static b"
    by blast
  then show ?case
  proof cases
    case 4
    have "\<forall>c\<in>set (empty_cells_of b). \<exists>v.
            minimax ai fuel (put b c (mover ai m)) (d + 1) (\<not> m)
            = Some (Fin v, put b c (mover ai m))"
    proof
      fix c assume "c \<in> set (empty_cells_of b)"
      then have c: "c \<in> set cells" "cell_at b c = blank"
        by (simp_all add: empty_cells_of_set)
      have "n_empty (put b c (mover ai m)) < n_empty b"
        using Suc.prems(1) c mover_not_blank[OF ai] by (rule n_empty_put)
      with Suc.prems(2) have "n_empty (put b c (mover ai m)) < fuel" by simp
      with Suc.IH[OF wf_put[OF Suc.prems(1)] ]
      show "\<exists>v. minimax ai fuel (put b c (mover ai m)) (d + 1) (\<not> m)
            = Some (Fin v, put b c (mover ai m))"
        by blast
    qed
    then obtain g where "\<forall>c\<in>set (empty_cells_of b).
            minimax ai fuel (put b c (mover ai m)) (d + 1) (\<not> m)
            = Some (Fin (g c), put b c (mover ai m))"
      using bchoice[of "set (empty_cells_of b)"
          "\<lambda>c v. minimax ai fuel (put b c (mover ai m)) (d + 1) (\<not> m)
            = Some (Fin v, put b c (mover ai m))"]
      by blast
    with minimax_step[OF Suc.prems(1) 4(3) 4(1) 4(2), of fuel m d g]
    show ?thesis by blast
  qed (simp_all add: minimax_terminal)
qed

lemma minimax_frame:
  "wf_board b \<Longrightarrow> minimax ai fuel b d m = Some (v, b') \<Longrightarrow> b' = b"
proof (induction fuel arbitrary: b d m v b')
  case 0
  then show ?case by simp
next
  case (Suc fuel)
  have rec: "b2 = put b c s"
    if "minimax ai fuel (put b c s) d' m' = Some (v', b2)" for c s d' m' v' b2
    using Suc.IH[OF wf_put[OF Suc.prems(1)] that] .
  from Suc.prems(2) show ?case
    by (auto simp: minimax_Suc split: if_splits
        dest!: fold_step_cell_frame[OF Suc.prems(1) subset_refl, rotated] dest: rec)
qed

lemma search_top_fold:
  "search_top ai fuel b
   = fold_opt (step_top (\<lambda>b'. minimax ai fuel b' 0 False) (ai_player ai)) cells (NegInf, [], b)"
  by (simp add: search_top_def step_top_def)

lemma step_top_occupied:
  assumes "cell_at b c \<noteq> blank"
  shows "step_top R s c (bv, bm, b) = Some (bv, bm, b)"
  using assms by (cases c) (simp add: step_top_def cell_at_def)

lemma step_top_blank_None:
  assumes "cell_at b c = blank" "R (put b c s) = None"
  shows "step_top R s c (bv, bm, b) = None"
  using assms by (cases c) (simp add: step_top_def cell_at_def put_def)

lemma step_top_blank:
  assumes "cell_at b c = blank" "R (put b c s) = Some (Fin v, b')"
  shows "\<exists>bv' bm'. step_top R s c (bv, bm, b) = Some (bv', bm', place b' (fst c) (snd c) blank)
          \<and> (bv', bm') = pick_top (\<lambda>c. cell_at b c = blank) (\<lambda>_. v) c (bv, bm)"
  using assms by (cases c) (simp add: step_top_def cell_at_def put_def pick_top_def)

lemma step_top_blank_frame:
  assumes "cell_at b c = blank" "R (put b c s) = Some (v, b')"
  shows "\<exists>bv' bm'. step_top R s c (bv, bm, b) = Some (bv', bm', place b' (fst c) (snd c) blank)"
  using assms by (cases c) (simp add: step_top_def cell_at_def put_def)

lemma fold_step_top:
  assumes "wf_board b" "set cs \<subseteq> set cells"
    and "\<And>c. c \<in> set cs \<Longrightarrow> cell_at b c = blank \<Longrightarrow> R (put b c s) = Some (Fin (g c), put b c s)"
  shows "fold_opt (step_top R s) cs (bv, bm, b)
         = Some (fst (fold (pick_top (\<lambda>c. cell_at b c = blank) g) cs (bv, bm)),
                 snd (fold (pick_top (\<lambda>c. cell_at b c = blank) g) cs (bv, bm)), b)"
  using assms(2,3)
proof (induction cs arbitrary: bv bm)
  case Nil
  then show ?case by simp
next
  case (Cons c cs)
  let ?P = "\<lambda>c. cell_at b c = blank"
  show ?case
  proof (cases "?P c")
    case True
    with Cons.prems have r: "R (put b c s) = Some (Fin (g c), put b c s)" by simp
    from Cons.prems have "c \<in> set cells" by simp
    with True assms(1) have u: "place (put b c s) (fst c) (snd c) blank = b"
      by (intro put_undo)
    from step_top_blank[where R = R and s = s and bv = bv and bm = bm, OF True r] u
    obtain bv' bm' where st: "step_top R s c (bv, bm, b) = Some (bv', bm', b)"
      and pk: "(bv', bm') = pick_top ?P (\<lambda>_. g c) c (bv, bm)"
      by auto
    have "pick_top ?P (\<lambda>_. g c) c (bv, bm) = pick_top ?P g c (bv, bm)"
      by (simp add: pick_top_def)
    with pk have "pick_top ?P g c (bv, bm) = (bv', bm')" by simp
    with st Cons.IH[of bv' bm'] Cons.prems show ?thesis by simp
  next
    case False
    then have "step_top R s c (bv, bm, b) = Some (bv, bm, b)"
      by (rule step_top_occupied)
    moreover from False have "pick_top ?P g c (bv, bm) = (bv, bm)"
      by (simp add: pick_top_def)
    ultimately show ?thesis using Cons.IH[of bv bm] Cons.prems by simp
  qed
qed

lemma fold_step_top_frame:
  assumes "wf_board b" "set cs \<subseteq> set cells"
    and "\<And>c v b'. c \<in> set cs \<Longrightarrow> cell_at b c = blank \<Longrightarrow> R (put b c s) = Some (v, b') \<Longrightarrow> b' = put b c s"
    and "fold_opt (step_top R s) cs (bv, bm, b) = Some (bv', bm', b')"
  shows "b' = b"
  using assms(2,3,4)
proof (induction cs arbitrary: bv bm)
  case Nil
  then show ?case by simp
next
  case (Cons c cs)
  show ?case
  proof (cases "cell_at b c = blank")
    case True
    from Cons.prems(3) obtain v b1 where r: "R (put b c s) = Some (v, b1)"
      using step_top_blank_None[where R = R and s = s and bv = bv and bm = bm, OF True]
      by (cases "R (put b c s)") auto
    with True Cons.prems have b1: "b1 = put b c s" by simp
    from Cons.prems have "c \<in> set cells" by simp
    with True assms(1) have "place (put b c s) (fst c) (snd c) blank = b"
      by (intro put_undo)
    with step_top_blank_frame[where R = R and s = s and bv = bv and bm = bm, OF True r] b1
    obtain bv1 bm1 where "step_top R s c (bv, bm, b) = Some (bv1, bm1, b)"
      by auto
    with Cons show ?thesis by simp
  next
    case False
    then have "step_top R s c (bv, bm, b) = Some (bv, bm, b)"
      by (rule step_top_occupied)
    with Cons show ?thesis by simp
  qed
qed

lemma fold_pick_top:
  "fold (pick_top P g) cs (NegInf, [])
   = (if \<exists>c\<in>set cs. P c
      then (Fin (Max (g ` {c \<in> set cs. P c})),
            filter (\<lambda>c. P c \<and> g c = Max (g ` {c \<in> set cs. P c})) cs)
      else (NegInf, []))"
proof (induction cs rule: rev_induct)
  case Nil
  then show ?case by simp
next
  case (snoc x xs)
  let ?S = "{c \<in> set xs. P c}"
  let ?st = "fold (pick_top P g) xs (NegInf, [])"
  have step: "fold (pick_top P g) (xs @ [x]) (NegInf, []) = pick_top P g x ?st"
    by simp
  show ?case
  proof (cases "P x")
    case False
    then have "{c \<in> set (xs @ [x]). P c} = ?S" by auto
    moreover from False have "pick_top P g x ?st = ?st"
      by (simp add: pick_top_def)
    ultimately show ?thesis
      using False snoc unfolding step by auto
  next
    case Px: True
    then have S': "{c \<in> set (xs @ [x]). P c} = insert x ?S" by auto
    from Px have ex: "\<exists>c\<in>set (xs @ [x]). P c" by simp
    show ?thesis
    proof (cases "\<exists>c\<in>set xs. P c")
      case False
      then have e: "?S = {}" by auto
      from False snoc have st: "?st = (NegInf, [])" by simp
      from False have f: "filter (\<lambda>c. P c \<and> g c = g x) xs = []"
        by (auto simp: filter_empty_conv)
      have "pick_top P g x (NegInf, []) = (Fin (g x), [x])"
        using Px by (simp add: pick_top_def)
      moreover have M0: "Max (g ` insert x ?S) = g x"
        unfolding e by simp
      ultimately show ?thesis
        using Px f ex unfolding step st S' M0 by simp
    next
      case True
      then have ne: "?S \<noteq> {}" by auto
      let ?M = "Max (g ` ?S)"
      have fin: "finite (g ` ?S)" by simp
      have M': "Max (g ` insert x ?S) = max (g x) ?M"
        using fin ne by simp
      have le: "g c \<le> ?M" if "c \<in> set xs" "P c" for c
        using that fin by (intro Max_ge) auto
      from snoc True
      have st: "?st = (Fin ?M, filter (\<lambda>c. P c \<and> g c = ?M) xs)"
        by simp
      consider "?M < g x" | "g x = ?M" | "g x < ?M" by linarith
      then show ?thesis
      proof cases
        case 1
        have "\<not> (P c \<and> g c = g x)" if "c \<in> set xs" for c
          using le[OF that] 1 by auto
        then have f: "filter (\<lambda>c. P c \<and> g c = g x) xs = []"
          by (simp add: filter_empty_conv)
        have "pick_top P g x (Fin ?M, filter (\<lambda>c. P c \<and> g c = ?M) xs) = (Fin (g x), [x])"
          using Px 1 by (simp add: pick_top_def)
        moreover have "max (g x) ?M = g x" using 1 by simp
        ultimately show ?thesis
          using Px f ex unfolding step st S' M' by simp
      next
        case 2
        have "pick_top P g x (Fin ?M, filter (\<lambda>c. P c \<and> g c = ?M) xs)
              = (Fin ?M, filter (\<lambda>c. P c \<and> g c = ?M) xs @ [x])"
          using Px 2 by (simp add: pick_top_def)
        moreover have "max (g x) ?M = ?M" using 2 by simp
        ultimately show ?thesis
          using Px 2 ex unfolding step st S' M' by simp
      next
        case 3
        have "pick_top P g x (Fin ?M, filter (\<lambda>c. P c \<and> g c = ?M) xs)
              = (Fin ?M, filter (\<lambda>c. P c \<and> g c = ?M) xs)"
          using Px 3 by (simp add: pick_top_def)
        moreover have "max (g x) ?M = ?M" using 3 by simp
        ultimately show ?thesis
          using Px 3 ex unfolding step st S' M' by simp
      qed
    qed
  qed
qed

lemma child_scores:
  assumes "wf_ai ai" "wf_board b" "n_empty b \<le> fuel" "s \<noteq> blank"
  obtains g where
    "\<And>c. c \<in> set (empty_cells_of b) \<Longrightarrow>
       minimax ai fuel (put b c s) d m = Some (Fin (g c), put b c s)"
proof -
  have "\<forall>c\<in>set (empty_cells_of b). \<exists>v.
          minimax ai fuel (put b c s) d m = Some (Fin v, put b c s)"
  proof
    fix c assume "c \<in> set (empty_cells_of b)"
    then have c: "c \<in> set cells" "cell_at b c = blank"
      by (simp_all add: empty_cells_of_set)
    with assms(2,4) have "n_empty (put b c s) < n_empty b"
      by (intro n_empty_put)
    with assms(3) have "n_empty (put b c s) < fuel" by simp
    with minimax_returns[OF assms(1) wf_put[OF assms(2)] ]
    show "\<exists>v. minimax ai fuel (put b c s) d m = Some (Fin v, put b c s)"
      by blast
  qed
  then obtain g where "\<forall>c\<in>set (empty_cells_of b).
      minimax ai fuel (put b c s) d m = Some (Fin (g c), put b c s)"
    using bchoice[of "set (empty_cells_of b)"
        "\<lambda>c v. minimax ai fuel (put b c s) d m = Some (Fin v, put b c s)"]
    by blast
  with that show thesis by blast
qed

lemma child_score_set:
  assumes "\<And>c. c \<in> set E \<Longrightarrow> R c = Some (Fin (g c), B c)"
  shows "{v. \<exists>c\<in>set E. R c = Some (Fin v, B c)} = g ` set E"
  using assms by auto

lemma search_top_scores:
  assumes wf: "wf_board b"
    and g: "\<And>c. c \<in> set (empty_cells_of b) \<Longrightarrow>
       minimax ai fuel (put b c (ai_player ai)) 0 False = Some (Fin (g c), put b c (ai_player ai))"
  shows "search_top ai fuel b
         = (if empty_cells_of b = [] then Some (NegInf, [], b)
            else Some (Fin (Max (g ` set (empty_cells_of b))),
                       filter (\<lambda>c. g c = Max (g ` set (empty_cells_of b))) (empty_cells_of b), b))"
proof -
  let ?P = "\<lambda>c. cell_at b c = blank"
  let ?E = "empty_cells_of b"
  have E: "{c \<in> set cells. ?P c} = set ?E"
    by (simp add: empty_cells_of_set)
  have ex: "(\<exists>c\<in>set cells. ?P c) \<longleftrightarrow> ?E \<noteq> []"
    by (simp add: empty_cells_of_filter filter_empty_conv)
  have f: "filter (\<lambda>c. ?P c \<and> g c = M) cells = filter (\<lambda>c. g c = M) ?E" for M
    by (simp add: empty_cells_of_filter conj_commute)
  have "search_top ai fuel b
        = Some (fst (fold (pick_top ?P g) cells (NegInf, [])),
                snd (fold (pick_top ?P g) cells (NegInf, [])), b)"
    unfolding search_top_fold using wf subset_refl
  proof (rule fold_step_top)
    fix c assume "c \<in> set cells" "?P c"
    then have "c \<in> set ?E" by (simp add: empty_cells_of_set)
    then show "minimax ai fuel (put b c (ai_player ai)) 0 False
               = Some (Fin (g c), put b c (ai_player ai))"
      by (rule g)
  qed
  then show ?thesis
    unfolding fold_pick_top ex E f by simp
qed

lemma best_cells_scores:
  assumes g: "\<And>c. c \<in> set (empty_cells_of b) \<Longrightarrow>
       minimax ai fuel (put b c (ai_player ai)) 0 False = Some (Fin (g c), put b c (ai_player ai))"
  shows "best_cells ai fuel b
         = filter (\<lambda>c. g c = Max (g ` set (empty_cells_of b))) (empty_cells_of b)"
proof -
  let ?E = "empty_cells_of b"
  have te: "top_eval ai fuel b c = Some (Fin (g c))" if "c \<in> set ?E" for c
    using g[OF that] by (simp add: top_eval_def)
  have la: "list_all (\<lambda>c'. case top_eval ai fuel b c' of None \<Rightarrow> False
                            | Some v' \<Rightarrow> \<not> py_lt (Fin v) v') ?E
            \<longleftrightarrow> (\<forall>c'\<in>set ?E. g c' \<le> v)" for v
    by (auto simp: list_all_iff te)
  have mx: "(\<forall>c'\<in>set ?E. g c' \<le> g c) \<longleftrightarrow> g c = Max (g ` set ?E)" if "c \<in> set ?E" for c
  proof
    assume "\<forall>c'\<in>set ?E. g c' \<le> g c"
    with that show "g c = Max (g ` set ?E)"
      by (intro Max_eqI[symmetric]) auto
  next
    assume "g c = Max (g ` set ?E)"
    then show "\<forall>c'\<in>set ?E. g c' \<le> g c"
      by simp
  qed
  show ?thesis
    unfolding best_cells_def
    by (rule filter_cong[OF refl]) (simp add: te la mx)
qed

lemma evaluate_cases:
  assumes "wf_ai ai"
  shows "evaluate ai b = 10 \<longleftrightarrow> check_winner_static b = Some (ai_player ai)"
    and "evaluate ai b = - 10 \<longleftrightarrow> check_winner_static b = Some (human_player ai)"
    and "evaluate ai b = 0 \<longleftrightarrow>
          check_winner_static b \<noteq> Some (ai_player ai) \<and> check_winner_static b \<noteq> Some (human_player ai)"
  using assms by (auto simp: evaluate_def Let_def wf_ai_def)

lemma search_top_frame:
  assumes "wf_board b" "search_top ai fuel b = Some (bv, bm, b')"
  shows "b' = b"
  using assms(1) subset_refl _ assms(2)[unfolded search_top_fold]
proof (rule fold_step_top_frame)
  fix c v b1
  assume "minimax ai fuel (put b c (ai_player ai)) 0 False = Some (v, b1)"
  with wf_put[OF assms(1)] show "b1 = put b c (ai_player ai)"
    by (rule minimax_frame)
qed

lemma random_choice_in: "xs \<noteq> [] \<Longrightarrow> random_choice r xs \<in> set xs"
  by (simp add: random_choice_def)

lemma random_choice_any:
  assumes "x \<in> set xs"
  shows "\<exists>k. random_choice (r\<lparr>random_draw := k\<rparr>) xs = x"
proof -
  from assms obtain k where "k < length xs" "xs ! k = x"
    by (auto simp: in_set_conv_nth)
  then have "random_choice (r\<lparr>random_draw := k\<rparr>) xs = x"
    by (simp add: random_choice_def)
  then show ?thesis ..
qed

lemma coord_not_sentinel: "coord c \<noteq> (- 1, - 1)"
  by (simp add: coord_def)

lemma find_best_move_frame:
  "find_best_move ai fuel r b = Some (mv, b') \<Longrightarrow> b' = b"
  by (auto simp: find_best_move_def Let_def split: if_splits option.splits)

lemma find_best_move_hard:
  assumes "difficulty ai = HARD" "search_top ai fuel b = Some (bv, bm, b')"
  shows "find_best_move ai fuel r b
         = Some (if bm \<noteq> [] then coord (random_choice r bm) else (- 1, - 1), b)"
  using assms by (simp add: find_best_move_def Let_def)

lemma late_board_facts:
  "wf_ai (ox d)" "wf_board late_board" "n_empty late_board \<le> 2"
  "empty_cells_of late_board = [(2, 0), (2, 2)]"
  by (simp_all add: wf_ai_def ox_def wf_board_def late_board_def n_empty_def empty_cells_of_def
      cells_def)

lemma search_top_best:
  assumes "wf_ai ai" "wf_board b" "n_empty b \<le> fuel" "empty_cells_of b \<noteq> []"
  shows "\<exists>v. search_top ai fuel b = Some (Fin v, best_cells ai fuel b, b)
           \<and> best_cells ai fuel b \<noteq> []
           \<and> (\<forall>c\<in>set (empty_cells_of b).
                 (c \<in> set (best_cells ai fuel b) \<longleftrightarrow> top_eval ai fuel b c = Some (Fin v))
               \<and> (\<exists>v'. top_eval ai fuel b c = Some (Fin v') \<and> v' \<le> v))"
proof -
  let ?E = "empty_cells_of b"
  from assms(1) have nb: "ai_player ai \<noteq> blank" by (simp add: wf_ai_def)
  from child_scores[OF assms(1,2,3) nb, of 0 False]
  obtain g where g: "\<And>c. c \<in> set ?E \<Longrightarrow>
       minimax ai fuel (put b c (ai_player ai)) 0 False = Some (Fin (g c), put b c (ai_player ai))"
    by blast
  let ?M = "Max (g ` set ?E)"
  have bc: "best_cells ai fuel b = filter (\<lambda>c. g c = ?M) ?E"
    using g by (rule best_cells_scores)
  have st: "search_top ai fuel b = Some (Fin ?M, best_cells ai fuel b, b)"
    using search_top_scores[OF assms(2), of ai fuel g] g assms(4) bc by simp
  have te: "top_eval ai fuel b c = Some (Fin (g c))" if "c \<in> set ?E" for c
    using g[OF that] by (simp add: top_eval_def)
  have "?M \<in> g ` set ?E"
    using assms(4) by (intro Max_in) auto
  then have ne: "best_cells ai fuel b \<noteq> []"
    unfolding bc by (auto simp: filter_empty_conv)
  have le: "g c \<le> ?M" if "c \<in> set ?E" for c
    using that by (intro Max_ge) auto
  from st ne te le bc show ?thesis
    by (intro exI[of _ ?M]) auto
qed

lemma find_best_move_result:
  assumes "wf_ai ai" "wf_board b" "n_empty b \<le> fuel"
  shows "\<exists>mv. find_best_move ai fuel r b = Some (mv, b)
           \<and> (mv = (- 1, - 1) \<longleftrightarrow> empty_cells_of b = [])
           \<and> (empty_cells_of b \<noteq> [] \<longrightarrow> mv \<in> coord ` set (empty_cells_of b))"
proof (cases "empty_cells_of b = []")
  case True
  have "search_top ai fuel b = Some (NegInf, [], b)"
    using search_top_scores[OF assms(2), of ai fuel "\<lambda>_. 0"] True by simp
  with True have "find_best_move ai fuel r b = Some ((- 1, - 1), b)"
    by (simp add: find_best_move_def Let_def)
  with True show ?thesis by simp
next
  case False
  from search_top_best[OF assms False]
  obtain v where st: "search_top ai fuel b = Some (Fin v, best_cells ai fuel b, b)"
    and ne: "best_cells ai fuel b \<noteq> []"
    by blast
  have sub: "set (best_cells ai fuel b) \<subseteq> set (empty_cells_of b)"
    by (auto simp: best_cells_def)
  have "find_best_move ai fuel r b = Some (coord (random_choice r (empty_cells_of b)), b)
      \<or> find_best_move ai fuel r b = Some (coord (random_choice r (best_cells ai fuel b)), b)"
    using st ne False by (simp add: find_best_move_def Let_def)
  moreover have "random_choice r (empty_cells_of b) \<in> set (empty_cells_of b)"
    using False by (rule random_choice_in)
  moreover have "random_choice r (best_cells ai fuel b) \<in> set (empty_cells_of b)"
    using random_choice_in[OF ne, of r] sub by blast
  ultimately obtain c where "c \<in> set (empty_cells_of b)"
    "find_best_move ai fuel r b = Some (coord c, b)"
    by blast
  with False show ?thesis
    by (auto simp: coord_not_sentinel)
qed

section \<open>Lines after a placement, and the range of the scores\<close>

lemma line_of_iff: "line_of b s l \<longleftrightarrow> s \<noteq> blank \<and> (\<forall>c\<in>set l. cell_at b c = s)"
  by (simp add: line_of_def list_all_iff)

lemma line_of_complete: "l \<in> set lines \<Longrightarrow> line_of b s l \<Longrightarrow> complete b l"
  using complete_iff_line_of by blast

lemma complete_put_new:
  assumes "wf_board b" "c \<in> set cells" "l \<in> set lines"
    and "line_of (put b c s) w l" "\<not> complete b l"
  shows "w = s \<and> c \<in> set l"
proof -
  have in_l: "c \<in> set l"
  proof (rule ccontr)
    assume "c \<notin> set l"
    then have "cell_at (put b c s) c' = cell_at b c'" if "c' \<in> set l" for c'
      using that assms(1,2) lines_cells[OF assms(3) that] by (auto simp: cell_at_put)
    with assms(4) have "line_of b w l"
      by (simp add: line_of_iff)
    with assms(3,5) show False
      using line_of_complete by blast
  qed
  with assms(4) have "cell_at (put b c s) c = w"
    by (simp add: line_of_iff)
  with assms(1,2) have "w = s"
    by (simp add: cell_at_put)
  with in_l show ?thesis by simp
qed

lemma winner_after_put:
  assumes "wf_board b" "c \<in> set cells" "check_winner_static b = None"
    and "check_winner_static (put b c s) = Some w"
  shows "w = s"
proof -
  from assms(4) obtain l where l: "l \<in> set lines" "line_of (put b c s) w l"
    using check_winner_static_Some[OF wf_put[OF assms(1)] ] by blast
  from assms(1,3) l(1) have "\<not> complete b l"
    by (simp add: check_winner_static_None)
  with complete_put_new[OF assms(1,2) l] show ?thesis by simp
qed

lemma winner_from_line:
  assumes "wf_board b" "c \<in> set cells" "check_winner_static b = None"
    and "l \<in> set lines" "line_of (put b c s) w l"
  shows "check_winner_static (put b c s) = Some s"
proof -
  from assms(4,5) have "complete (put b c s) l"
    by (rule line_of_complete)
  with assms(4) have "check_winner_static (put b c s) \<noteq> None"
    using check_winner_static_None[OF wf_put[OF assms(1)] ] by blast
  then obtain w' where w': "check_winner_static (put b c s) = Some w'"
    by (cases "check_winner_static (put b c s)") auto
  with winner_after_put[OF assms(1,2,3)] show ?thesis by simp
qed

lemma n_empty_le_9: "n_empty b \<le> 9"
proof -
  have "length (empty_cells_of b) \<le> length cells"
    unfolding empty_cells_of_def by (rule length_filter_le)
  then show ?thesis
    by (simp add: n_empty_def cells_def)
qed

lemma n_empty_put_Suc:
  assumes "wf_board b" "c \<in> set cells" "cell_at b c = blank" "s \<noteq> blank"
  shows "Suc (n_empty (put b c s)) \<le> n_empty b"
  using n_empty_put[OF assms] by simp

lemma best_of_in:
  assumes "finite A" "A \<noteq> {}"
  shows "best_of m A \<in> A"
  using assms by (simp add: best_of_def Max_in Min_in)

lemma minimax_bounds:
  assumes ai: "wf_ai ai"
  shows "wf_board b \<Longrightarrow> n_empty b < fuel \<Longrightarrow> 0 \<le> d \<Longrightarrow> d + int (n_empty b) \<le> 9 \<Longrightarrow>
         minimax ai fuel b d m = Some (Fin v, b') \<Longrightarrow>
         - 10 + d \<le> v \<and> v \<le> 10 - d
         \<and> (evaluate ai b \<noteq> 10 \<longrightarrow> v \<le> 9 - d)
         \<and> (evaluate ai b \<noteq> - 10 \<longrightarrow> - 9 + d \<le> v)"
proof (induction fuel arbitrary: b d m v b')
  case 0
  then show ?case by simp
next
  case (Suc fuel)
  from Suc.prems(3,4) have d9: "d \<le> 9" by linarith
  consider "evaluate ai b = 10" | "evaluate ai b = - 10"
    | "evaluate ai b \<noteq> 10" "evaluate ai b \<noteq> - 10" "is_full_static b"
    | "evaluate ai b \<noteq> 10" "evaluate ai b \<noteq> - 10" "\<not> is_full_static b"
    by blast
  then show ?case
  proof cases
    case 1
    with Suc.prems(5) have "v = 10 - d" by (simp add: minimax_terminal)
    with 1 Suc.prems(3) d9 show ?thesis by simp
  next
    case 2
    with Suc.prems(5) have "v = - 10 + d" by (simp add: minimax_terminal)
    with 2 Suc.prems(3) d9 show ?thesis by simp
  next
    case 3
    with Suc.prems(5) have "v = 0" by (simp add: minimax_terminal)
    with Suc.prems(3) d9 show ?thesis by simp
  next
    case 4
    let ?E = "empty_cells_of b"
    let ?s = "mover ai m"
    from Suc.prems(2) have n: "n_empty b \<le> fuel" by simp
    from child_scores[OF ai Suc.prems(1) n mover_not_blank[OF ai], of m "d + 1" "\<not> m"]
    obtain g where g: "\<And>c. c \<in> set ?E \<Longrightarrow>
        minimax ai fuel (put b c ?s) (d + 1) (\<not> m) = Some (Fin (g c), put b c ?s)"
      by blast
    have "minimax ai (Suc fuel) b d m = Some (Fin (best_of m (g ` set ?E)), b)"
      using Suc.prems(1) 4(3) 4(1) 4(2) g by (rule minimax_step)
    with Suc.prems(5) have v: "v = best_of m (g ` set ?E)" by auto
    from 4(3) Suc.prems(1) have "?E \<noteq> []" by (simp add: is_full_static_iff)
    then have "best_of m (g ` set ?E) \<in> g ` set ?E"
      by (intro best_of_in) auto
    with v obtain c where c: "c \<in> set ?E" "v = g c" by auto
    then have cc: "c \<in> set cells" "cell_at b c = blank"
      by (simp_all add: empty_cells_of_set)
    have lt: "n_empty (put b c ?s) < n_empty b"
      using Suc.prems(1) cc mover_not_blank[OF ai] by (rule n_empty_put)
    with n have 1: "n_empty (put b c ?s) < fuel" by simp
    from Suc.prems(3) have 2: "0 \<le> d + 1" by simp
    from lt Suc.prems(4) have 3: "d + 1 + int (n_empty (put b c ?s)) \<le> 9" by linarith
    from Suc.IH[OF wf_put[OF Suc.prems(1)] 1 2 3 g[OF c(1)] ] c(2)
    show ?thesis by simp
  qed
qed

lemma line_survives_other_move:
  assumes "wf_board b" "c \<in> set cells" "t \<in> set cells" "l \<in> set lines"
    and "cell_at b c = blank" "c \<noteq> t" "line_of (put b t h) h l"
  shows "line_of (put (put b c a) t h) h l"
proof -
  from assms(7) have h: "h \<noteq> blank" by (simp add: line_of_iff)
  have "cell_at (put (put b c a) t h) c' = h" if "c' \<in> set l" for c'
  proof (cases "c' = t")
    case True
    with assms(1,3) show ?thesis by (simp add: cell_at_put wf_put)
  next
    case False
    from that assms(4) have c': "c' \<in> set cells" by (simp add: lines_cells)
    from assms(7) that have "cell_at (put b t h) c' = h" by (simp add: line_of_iff)
    with False assms(1,3) c' have "cell_at b c' = h" by (simp add: cell_at_put)
    with h assms(5) have "c' \<noteq> c" by auto
    with False assms(1,2,3) c' \<open>cell_at b c' = h\<close> show ?thesis
      by (simp add: cell_at_put wf_put)
  qed
  with h show ?thesis by (simp add: line_of_iff)
qed

lemma line_without_other_move:
  assumes "wf_board b" "c \<in> set cells" "t \<in> set cells" "l \<in> set lines"
    and "a \<noteq> h" "line_of (put (put b t a) c h) h l"
  shows "line_of (put b c h) h l"
proof -
  from assms(6) have h: "h \<noteq> blank" by (simp add: line_of_iff)
  have "cell_at (put b c h) c' = h" if "c' \<in> set l" for c'
  proof (cases "c' = c")
    case True
    with assms(1,2) show ?thesis by (simp add: cell_at_put)
  next
    case False
    from that assms(4) have c': "c' \<in> set cells" by (simp add: lines_cells)
    from assms(6) that have "cell_at (put (put b t a) c h) c' = h" by (simp add: line_of_iff)
    with False assms(1,2) c' have 1: "cell_at (put b t a) c' = h" by (simp add: cell_at_put wf_put)
    with assms(1,3,5) c' have "c' \<noteq> t" by (auto simp: cell_at_put)
    with 1 assms(1,3) c' have "cell_at b c' = h" by (simp add: cell_at_put)
    with False assms(1,2) c' show ?thesis by (simp add: cell_at_put)
  qed
  with h show ?thesis by (simp add: line_of_iff)
qed

lemma no_winner_after_put:
  assumes "wf_board b" "c \<in> set cells" "check_winner_static b = None"
    and "check_winner_static (put b c s) \<noteq> Some s"
  shows "check_winner_static (put b c s) = None"
  using winner_after_put[OF assms(1,2,3)] assms(4)
  by (cases "check_winner_static (put b c s)") auto

lemma evaluate_no_winner: "check_winner_static b = None \<Longrightarrow> evaluate ai b = 0"
  by (simp add: evaluate_def)

lemma top_score_win:
  assumes "wf_ai ai" "wf_board b" "n_empty b \<le> fuel" "c \<in> set (empty_cells_of b)"
    and "minimax ai fuel (put b c (ai_player ai)) 0 False = Some (Fin v, b')"
  shows "v \<le> 10"
    and "v = 10 \<longleftrightarrow> check_winner_static (put b c (ai_player ai)) = Some (ai_player ai)"
proof -
  let ?b1 = "put b c (ai_player ai)"
  from assms(4) have c: "c \<in> set cells" "cell_at b c = blank"
    by (simp_all add: empty_cells_of_set)
  from assms(1) have nb: "ai_player ai \<noteq> blank" by (simp add: wf_ai_def)
  have lt: "n_empty ?b1 < n_empty b"
    using assms(2) c nb by (rule n_empty_put)
  with assms(3) have 1: "n_empty ?b1 < fuel" by simp
  have 2: "0 + int (n_empty ?b1) \<le> 9"
    using n_empty_le_9[of ?b1] by simp
  from minimax_bounds[OF assms(1) wf_put[OF assms(2)] 1 _ 2 assms(5)]
  have b: "v \<le> 10" "evaluate ai ?b1 \<noteq> 10 \<longrightarrow> v \<le> 9"
    by simp_all
  from b(1) show "v \<le> 10" .
  from 1 obtain f where f: "fuel = Suc f" by (cases fuel) auto
  have "evaluate ai ?b1 = 10 \<Longrightarrow> v = 10"
    using assms(5) unfolding f by (simp add: minimax_terminal)
  with b(2) have "v = 10 \<longleftrightarrow> evaluate ai ?b1 = 10" by auto
  then show "v = 10 \<longleftrightarrow> check_winner_static ?b1 = Some (ai_player ai)"
    using assms(1) by (simp add: evaluate_cases)
qed

text \<open>A cell that leaves the human's winning cell open scores \<open>-9\<close>.\<close>

lemma unblocked_score:
  assumes ai: "wf_ai ai" and wf: "wf_board b" and nw: "check_winner_static b = None"
    and n: "n_empty b \<le> fuel"
    and c: "c \<in> set (empty_cells_of b)" and t: "t \<in> set (empty_cells_of b)" and ct: "c \<noteq> t"
    and na: "check_winner_static (put b c (ai_player ai)) \<noteq> Some (ai_player ai)"
    and th: "check_winner_static (put b t (human_player ai)) = Some (human_player ai)"
  shows "minimax ai fuel (put b c (ai_player ai)) 0 False
         = Some (Fin (- 9), put b c (ai_player ai))"
proof -
  let ?a = "ai_player ai" and ?h = "human_player ai"
  let ?b1 = "put b c ?a"
  let ?E1 = "empty_cells_of ?b1"
  from ai have nb: "?a \<noteq> blank" "?h \<noteq> blank" "?a \<noteq> ?h" by (simp_all add: wf_ai_def)
  from c t have cc: "c \<in> set cells" "cell_at b c = blank" and tc: "t \<in> set cells" "cell_at b t = blank"
    by (simp_all add: empty_cells_of_set)
  have wf1: "wf_board ?b1" using wf by (rule wf_put)
  have nw1: "check_winner_static ?b1 = None"
    using wf cc(1) nw na by (rule no_winner_after_put)
  then have ev1: "evaluate ai ?b1 \<noteq> 10" "evaluate ai ?b1 \<noteq> - 10"
    by (simp_all add: evaluate_no_winner)
  have E1: "?E1 = filter (\<lambda>c'. c' \<noteq> c) (empty_cells_of b)"
    using wf cc(1) nb(1) by (rule empty_cells_of_put)
  with t ct have t1: "t \<in> set ?E1" by simp
  then have nf1: "\<not> is_full_static ?b1"
    using wf1 by (auto simp: is_full_static_iff)
  have lt: "n_empty ?b1 < n_empty b"
    using wf cc nb(1) by (rule n_empty_put)
  with n obtain f where f: "fuel = Suc f" "n_empty ?b1 \<le> f"
    by (cases fuel) auto
  from child_scores[OF ai wf1 f(2) nb(2), of 1 True]
  obtain h where h: "\<And>c'. c' \<in> set ?E1 \<Longrightarrow>
      minimax ai f (put ?b1 c' ?h) 1 True = Some (Fin (h c'), put ?b1 c' ?h)"
    by blast
  have "minimax ai (Suc f) ?b1 0 False = Some (Fin (best_of False (h ` set ?E1)), ?b1)"
    using wf1 nf1 ev1 by (rule minimax_step) (simp add: mover_def h)
  then have val: "minimax ai fuel ?b1 0 False = Some (Fin (Min (h ` set ?E1)), ?b1)"
    by (simp add: f best_of_def)
  from th obtain l where l: "l \<in> set lines" "line_of (put b t ?h) ?h l"
    using check_winner_static_Some[OF wf_put[OF wf] ] by blast
  have "line_of (put ?b1 t ?h) ?h l"
    using wf cc(1) tc(1) l(1) cc(2) ct l(2) by (rule line_survives_other_move)
  with wf1 tc(1) nw1 l(1) have "check_winner_static (put ?b1 t ?h) = Some ?h"
    by (rule winner_from_line)
  with ai have ev2: "evaluate ai (put ?b1 t ?h) = - 10"
    by (simp add: evaluate_cases)
  have n1: "n_empty (put ?b1 c' ?h) < n_empty ?b1" if "c' \<in> set ?E1" for c'
    using wf1 that nb(2) by (intro n_empty_put) (simp_all add: empty_cells_of_set)
  from n1[OF t1] f(2) obtain f' where f': "f = Suc f'"
    by (cases f) auto
  from h[OF t1] ev2 have ht: "h t = - 9"
    unfolding f' by (simp add: minimax_terminal)
  have lb: "- 9 \<le> h c'" if "c' \<in> set ?E1" for c'
  proof -
    from n1[OF that] f(2) have 1: "n_empty (put ?b1 c' ?h) < f" by simp
    from n1[OF that] lt n_empty_le_9[of b]
    have 2: "1 + int (n_empty (put ?b1 c' ?h)) \<le> 9" by linarith
    from minimax_bounds[OF ai wf_put[OF wf1] 1 _ 2 h[OF that] ]
    show ?thesis by simp
  qed
  have "Min (h ` set ?E1) = - 9"
  proof (rule Min_eqI)
    show "finite (h ` set ?E1)" by simp
    show "- 9 \<le> y" if "y \<in> h ` set ?E1" for y
      using that lb by auto
    show "- 9 \<in> h ` set ?E1"
      using t1 ht by force
  qed
  with val show ?thesis by simp
qed

text \<open>The cell that takes the human's only winning cell scores at least \<open>-8\<close>.\<close>

lemma block_score:
  assumes ai: "wf_ai ai" and wf: "wf_board b" and nw: "check_winner_static b = None"
    and n: "n_empty b \<le> fuel"
    and t: "t \<in> set (empty_cells_of b)"
    and na: "check_winner_static (put b t (ai_player ai)) \<noteq> Some (ai_player ai)"
    and only: "\<And>c. c \<in> set (empty_cells_of b) \<Longrightarrow> c \<noteq> t \<Longrightarrow>
        check_winner_static (put b c (human_player ai)) \<noteq> Some (human_player ai)"
    and val: "minimax ai fuel (put b t (ai_player ai)) 0 False = Some (Fin v, b')"
  shows "- 8 \<le> v"
proof -
  let ?a = "ai_player ai" and ?h = "human_player ai"
  let ?b1 = "put b t ?a"
  let ?E1 = "empty_cells_of ?b1"
  from ai have nb: "?a \<noteq> blank" "?h \<noteq> blank" "?a \<noteq> ?h" by (simp_all add: wf_ai_def)
  from t have tc: "t \<in> set cells" "cell_at b t = blank"
    by (simp_all add: empty_cells_of_set)
  have wf1: "wf_board ?b1" using wf by (rule wf_put)
  have nw1: "check_winner_static ?b1 = None"
    using wf tc(1) nw na by (rule no_winner_after_put)
  then have ev1: "evaluate ai ?b1 \<noteq> 10" "evaluate ai ?b1 \<noteq> - 10"
    by (simp_all add: evaluate_no_winner)
  have E1: "?E1 = filter (\<lambda>c'. c' \<noteq> t) (empty_cells_of b)"
    using wf tc(1) nb(1) by (rule empty_cells_of_put)
  have lt: "n_empty ?b1 < n_empty b"
    using wf tc nb(1) by (rule n_empty_put)
  with n obtain f where f: "fuel = Suc f" "n_empty ?b1 \<le> f"
    by (cases fuel) auto
  show ?thesis
  proof (cases "is_full_static ?b1")
    case True
    with val ev1 have "v = 0" unfolding f by (simp add: minimax_terminal)
    then show ?thesis by simp
  next
    case False
    from child_scores[OF ai wf1 f(2) nb(2), of 1 True]
    obtain h where h: "\<And>c'. c' \<in> set ?E1 \<Longrightarrow>
        minimax ai f (put ?b1 c' ?h) 1 True = Some (Fin (h c'), put ?b1 c' ?h)"
      by blast
    have "minimax ai (Suc f) ?b1 0 False = Some (Fin (best_of False (h ` set ?E1)), ?b1)"
      using wf1 False ev1 by (rule minimax_step) (simp add: mover_def h)
    with val have v: "v = best_of False (h ` set ?E1)"
      by (auto simp: f)
    from False wf1 have "?E1 \<noteq> []" by (simp add: is_full_static_iff)
    then have "best_of False (h ` set ?E1) \<in> h ` set ?E1"
      by (intro best_of_in) auto
    with v obtain c' where c': "c' \<in> set ?E1" "v = h c'" by auto
    then have c'E: "c' \<in> set (empty_cells_of b)" "c' \<noteq> t"
      by (simp_all add: E1)
    then have c'c: "c' \<in> set cells" by (simp add: empty_cells_of_set)
    have nh: "check_winner_static (put ?b1 c' ?h) \<noteq> Some ?h"
    proof
      assume "check_winner_static (put ?b1 c' ?h) = Some ?h"
      then obtain l where l: "l \<in> set lines" "line_of (put ?b1 c' ?h) ?h l"
        using check_winner_static_Some[OF wf_put[OF wf1] ] by blast
      have "line_of (put b c' ?h) ?h l"
        using wf c'c tc(1) l(1) nb(3) l(2) by (rule line_without_other_move)
      with wf c'c nw l(1) have "check_winner_static (put b c' ?h) = Some ?h"
        by (rule winner_from_line)
      with only[OF c'E] show False by simp
    qed
    with ai have ev2: "evaluate ai (put ?b1 c' ?h) \<noteq> - 10"
      by (simp add: evaluate_cases)
    have n1: "n_empty (put ?b1 c' ?h) < n_empty ?b1"
      using wf1 c'(1) nb(2) by (intro n_empty_put) (simp_all add: empty_cells_of_set)
    with f(2) have 1: "n_empty (put ?b1 c' ?h) < f" by simp
    from n1 lt n_empty_le_9[of b]
    have 2: "1 + int (n_empty (put ?b1 c' ?h)) \<le> 9" by linarith
    from minimax_bounds[OF ai wf_put[OF wf1] 1 _ 2 h[OF c'(1)] ] ev2
    have "- 8 \<le> h c'" by simp
    with c'(2) show ?thesis by simp
  qed
qed

lemma top_eval_Some:
  "top_eval ai fuel b c = Some v \<longleftrightarrow>
   (\<exists>b'. minimax ai fuel (put b c (ai_player ai)) 0 False = Some (v, b'))"
  by (auto simp: top_eval_def)

lemma hard_choice:
  assumes "wf_ai ai" "difficulty ai = HARD" "wf_board b" "n_empty b \<le> fuel"
    and "empty_cells_of b \<noteq> []"
  obtains c v where "c \<in> set (empty_cells_of b)"
    "find_best_move ai fuel r b = Some (coord c, b)"
    "top_eval ai fuel b c = Some (Fin v)"
    "\<And>c'. c' \<in> set (empty_cells_of b) \<Longrightarrow> \<exists>v'. top_eval ai fuel b c' = Some (Fin v') \<and> v' \<le> v"
proof -
  from search_top_best[OF assms(1,3,4,5)]
  obtain v where st: "search_top ai fuel b = Some (Fin v, best_cells ai fuel b, b)"
    and ne: "best_cells ai fuel b \<noteq> []"
    and sc: "\<forall>c\<in>set (empty_cells_of b).
                 (c \<in> set (best_cells ai fuel b) \<longleftrightarrow> top_eval ai fuel b c = Some (Fin v))
               \<and> (\<exists>v'. top_eval ai fuel b c = Some (Fin v') \<and> v' \<le> v)"
    by blast
  let ?c = "random_choice r (best_cells ai fuel b)"
  have fb: "find_best_move ai fuel r b = Some (coord ?c, b)"
    using find_best_move_hard[OF assms(2) st] ne by simp
  have in_best: "?c \<in> set (best_cells ai fuel b)"
    using ne by (rule random_choice_in)
  then have in_E: "?c \<in> set (empty_cells_of b)"
    by (auto simp: best_cells_def)
  with sc in_best have "top_eval ai fuel b ?c = Some (Fin v)" by blast
  with that[OF in_E fb] sc show thesis by blast
qed

text \<open>With two winning cells for the human and none for the computer, every cell scores \<open>-9\<close>.\<close>

lemma fork_score:
  assumes "wf_ai ai" "wf_board b" "check_winner_static b = None" "n_empty b \<le> fuel"
    and na: "\<And>c. c \<in> set (empty_cells_of b) \<Longrightarrow>
        check_winner_static (put b c (ai_player ai)) \<noteq> Some (ai_player ai)"
    and t: "t1 \<in> set (empty_cells_of b)" "t2 \<in> set (empty_cells_of b)" "t1 \<noteq> t2"
    and th: "check_winner_static (put b t1 (human_player ai)) = Some (human_player ai)"
      "check_winner_static (put b t2 (human_player ai)) = Some (human_player ai)"
    and c: "c \<in> set (empty_cells_of b)"
  shows "minimax ai fuel (put b c (ai_player ai)) 0 False
         = Some (Fin (- 9), put b c (ai_player ai))"
proof (cases "c = t1")
  case True
  with t(3) have "c \<noteq> t2" by simp
  with assms(1-4) c t(2) show ?thesis
    using na[OF c] th(2) by (rule unblocked_score)
next
  case False
  with assms(1-4) c t(1) show ?thesis
    using na[OF c] th(1) by (rule unblocked_score)
qed

lemma all_tie:
  assumes "wf_ai ai" "difficulty ai = HARD" "wf_board b" "empty_cells_of b \<noteq> []"
    and g: "\<And>c. c \<in> set (empty_cells_of b) \<Longrightarrow>
       minimax ai fuel (put b c (ai_player ai)) 0 False = Some (Fin v, put b c (ai_player ai))"
  shows "best_cells ai fuel b = empty_cells_of b"
    and "\<forall>c\<in>set (empty_cells_of b).
           \<exists>k. find_best_move ai fuel (r\<lparr>random_draw := k\<rparr>) b = Some (coord c, b)"
proof -
  let ?E = "empty_cells_of b"
  from assms(4) obtain c0 where "c0 \<in> set ?E"
    by (cases ?E) auto
  then have "(\<lambda>_. v) ` set ?E = {v}"
    by blast
  then have mx: "Max ((\<lambda>_. v) ` set ?E) = v" by simp
  have bc: "best_cells ai fuel b = filter (\<lambda>c. v = Max ((\<lambda>_. v) ` set ?E)) ?E"
    using g by (rule best_cells_scores)
  then show best: "best_cells ai fuel b = ?E"
    unfolding mx by simp
  have "search_top ai fuel b = Some (Fin v, best_cells ai fuel b, b)"
    using search_top_scores[OF assms(3), of ai fuel "\<lambda>_. v"] g assms(4) bc by simp
  then have fb: "find_best_move ai fuel r' b = Some (coord (random_choice r' ?E), b)" for r'
    using find_best_move_hard[OF assms(2)] assms(4) best by simp
  show "\<forall>c\<in>set ?E. \<exists>k. find_best_move ai fuel (r\<lparr>random_draw := k\<rparr>) b = Some (coord c, b)"
  proof
    fix c assume "c \<in> set ?E"
    then obtain k where "random_choice (r\<lparr>random_draw := k\<rparr>) ?E = c"
      using random_choice_any[where r = r and xs = ?E and x = c] by auto
    with fb[of "r\<lparr>random_draw := k\<rparr>"]
    show "\<exists>k. find_best_move ai fuel (r\<lparr>random_draw := k\<rparr>) b = Some (coord c, b)"
      by auto
  qed
qed

section \<open>The round trip through the statistics file\<close>

lemma dict_of_pairs_acc:
  "distinct (map fst (acc @ kvs)) \<Longrightarrow>
   foldl (\<lambda>d kv. dict_set d (fst kv) (snd kv)) acc kvs = acc @ kvs"
proof (induction kvs arbitrary: acc)
  case Nil
  then show ?case by simp
next
  case (Cons kv kvs)
  from Cons.prems have "fst kv \<notin> set (map fst acc)" by auto
  then have "dict_set acc (fst kv) (snd kv) = acc @ [kv]"
    by (simp add: dict_set_def)
  with Cons.IH[of "acc @ [kv]"] Cons.prems show ?case by simp
qed

lemma dict_of_pairs_distinct: "distinct (map fst kvs) \<Longrightarrow> dict_of_pairs kvs = kvs"
  using dict_of_pairs_acc[of "[]" kvs] by (simp add: dict_of_pairs_def)

lemma json_round_trip: "py_ok v \<Longrightarrow> json_load (json_dump v) = v"
proof (induction v)
  case (PNum n)
  then show ?case by (cases n) simp_all
next
  case (PList xs)
  then have "map (json_load \<circ> json_dump) xs = xs"
    by (intro map_idI) (auto simp: list_all_iff)
  then show ?case by simp
next
  case (PDict kvs)
  have eq: "map_prod id json_load (map_prod id json_dump kv) = kv" if "kv \<in> set kvs" for kv
  proof -
    from PDict.prems that have "py_ok (snd kv)"
      by (auto simp: list_all_iff)
    with PDict.IH[of kv "snd kv"] that have "json_load (json_dump (snd kv)) = snd kv"
      by (cases kv) auto
    then show ?thesis by (cases kv) simp
  qed
  have "map (map_prod id json_load) (map (map_prod id json_dump) kvs) = kvs"
    unfolding map_map o_def by (rule map_idI) (rule eq)
  moreover from PDict.prems have "distinct (map fst kvs)" by simp
  ultimately show ?case
    by (simp only: json_dump.simps json_load.simps dict_of_pairs_distinct)
qed simp_all

lemma py_ok_stats_dict: "distinct (map fst dw) \<Longrightarrow> py_ok (stats_dict st dw)"
  by (simp add: stats_dict_def list_all_iff comp_def)

lemma load_save: "writable d \<Longrightarrow> load_stats cur (save_stats v d) = json_load (json_dump v)"
  by (simp add: load_stats_def save_stats_def)

lemma load_save_web:
  "writable d \<Longrightarrow> load_stats_web (save_stats_web v d) = json_load (json_dump v)"
  by (simp add: load_stats_web_def save_stats_web_def)

section \<open>The claims of the specification\<close>

text \<open>
  C1, as the code has it. \<^verbatim>\<open>make_move\<close> has no bounds check. On a 3x3 board and for a row
  and a column in \<open>0..2\<close> it returns without raising, the returned boolean says whether
  the cell was blank, on success exactly that cell holds the symbol and the ply counter
  is one more, and on failure the game is unchanged. A row or column \<open>\<ge> 3\<close> or \<open>< -3\<close>
  raises \<^verbatim>\<open>IndexError\<close>; a row or column in \<open>-3..-1\<close> addresses the cell three further on.
\<close>

theorem make_move_in_range:
  assumes "wf_board (board g)"
  shows "(\<forall>r<3. \<forall>c<3. \<exists>ok g'.
            make_move g (int r) (int c) p = Inr (ok, g')
          \<and> ok = (cell_at (board g) (r, c) = blank)
          \<and> (ok \<longrightarrow> cell_at (board g') (r, c) = p
                  \<and> (\<forall>c'\<in>set cells. c' \<noteq> (r, c) \<longrightarrow> cell_at (board g') c' = cell_at (board g) c')
                  \<and> wf_board (board g')
                  \<and> move_count g' = move_count g + 1
                  \<and> current_player g' = current_player g)
          \<and> (\<not> ok \<longrightarrow> g' = g))
       \<and> (row < - 3 \<or> 3 \<le> row \<or> col < - 3 \<or> 3 \<le> col \<longrightarrow>
            make_move g row col p = Inl IndexError)
       \<and> (- 3 \<le> row \<and> row < 0 \<longrightarrow> make_move g row col p = make_move g (row + 3) col p)
       \<and> (- 3 \<le> col \<and> col < 0 \<longrightarrow> make_move g row col p = make_move g row (col + 3) p)"
proof (intro conjI allI impI)
  from assms have len: "length (board g) = 3"
    by (simp add: wf_board_def)
  have rows: "length (board g ! i) = 3" if "i < 3" for i
    using assms that by (rule wf_board_rows)
  {
    fix r c :: nat
    assume r: "r < 3" and c: "c < 3"
    have rc: "(r, c) \<in> set cells"
      using r c by (simp add: in_cells)
    have ir: "py_index (board g) (int r) = Inr r"
      using r len by (simp add: py_index_in)
    have ic: "py_index (board g ! r) (int c) = Inr c"
      using c rows[OF r] by (simp add: py_index_in)
    let ?ok = "cell_at (board g) (r, c) = blank"
    let ?g' = "if ?ok then g\<lparr>board := place (board g) r c p, move_count := move_count g + 1\<rparr> else g"
    have mm: "make_move g (int r) (int c) p = Inr (?ok, ?g')"
      by (simp add: make_move_def ir ic cell_at_def)
    have upd: "cell_at (place (board g) r c p) c' = (if c' = (r, c) then p else cell_at (board g) c')"
      if "c' \<in> set cells" for c'
      using cell_at_place[OF assms rc that, of p] by simp
    have "?ok \<longrightarrow> cell_at (board ?g') (r, c) = p
                  \<and> (\<forall>c'\<in>set cells. c' \<noteq> (r, c) \<longrightarrow> cell_at (board ?g') c' = cell_at (board g) c')
                  \<and> wf_board (board ?g')
                  \<and> move_count ?g' = move_count g + 1
                  \<and> current_player ?g' = current_player g"
      using upd rc assms by (simp add: wf_place)
    with mm show "\<exists>ok g'.
            make_move g (int r) (int c) p = Inr (ok, g')
          \<and> ok = (cell_at (board g) (r, c) = blank)
          \<and> (ok \<longrightarrow> cell_at (board g') (r, c) = p
                  \<and> (\<forall>c'\<in>set cells. c' \<noteq> (r, c) \<longrightarrow> cell_at (board g') c' = cell_at (board g) c')
                  \<and> wf_board (board g')
                  \<and> move_count g' = move_count g + 1
                  \<and> current_player g' = current_player g)
          \<and> (\<not> ok \<longrightarrow> g' = g)"
      by (intro exI[of _ ?ok] exI[of _ ?g']) simp
  }
  {
    assume out: "row < - 3 \<or> 3 \<le> row \<or> col < - 3 \<or> 3 \<le> col"
    show "make_move g row col p = Inl IndexError"
    proof (cases "row < - 3 \<or> 3 \<le> row")
      case True
      then have "py_index (board g) row = Inl IndexError"
        using len by (intro py_index_out) simp
      then show ?thesis by (simp add: make_move_def)
    next
      case False
      with out have c: "col < - 3 \<or> 3 \<le> col" by blast
      from False obtain r where r1: "py_index (board g) row = Inr r"
        using len py_index_range[of "board g" row] by auto
      then have "r < 3" using len py_index_Inr by fastforce
      note r = r1 this
      from c have "py_index (board g ! r) col = Inl IndexError"
        using rows[OF r(2)] by (intro py_index_out) simp
      with r show ?thesis by (simp add: make_move_def)
    qed
  }
  {
    assume "- 3 \<le> row \<and> row < 0"
    then have "py_index (board g) row = py_index (board g) (row + 3)"
      using len py_index_neg[of row "board g"] by simp
    then show "make_move g row col p = make_move g (row + 3) col p"
      by (simp add: make_move_def)
  }
  {
    assume c: "- 3 \<le> col \<and> col < 0"
    have "py_index xs col = py_index xs (col + 3)" if "length xs = 3" for xs :: "cell list"
      using c that py_index_neg[of col xs] by simp
    moreover have "length (board g ! r) = 3" if "py_index (board g) row = Inr r" for r
    proof -
      from that have "r < 3" using len py_index_Inr by fastforce
      then show ?thesis by (rule rows)
    qed
    ultimately show "make_move g row col p = make_move g row (col + 3) p"
      by (auto simp: make_move_def split: sum.splits)
  }
qed

theorem make_move_in_range_witness:
  "wf_board (board init_game)
   \<and> (\<exists>g'. make_move init_game 1 1 ''X'' = Inr (True, g') \<and> cell_at (board g') (1, 1) = ''X''
            \<and> move_count g' = 1)
   \<and> make_move full_game 1 1 ''X'' = Inr (False, full_game)
   \<and> make_move init_game (- 4) 0 ''X'' = Inl IndexError
   \<and> make_move init_game (- 1) 0 ''X'' = make_move init_game 2 0 ''X''"
proof -
  have wf: "wf_board (board init_game)" "wf_board (board full_game)"
    by (simp_all add: init_game_def init_board_def full_game_def wf_board_def)
  have e: "cell_at (board init_game) (1, 1) = blank" "cell_at (board full_game) (1, 1) \<noteq> blank"
    by (simp_all add: init_game_def init_board_def full_game_def cell_at_def)
  from make_move_in_range[OF wf(1), of "''X''" "- 4" 0] e(1)
  have 1: "(\<exists>g'. make_move init_game 1 1 ''X'' = Inr (True, g') \<and> cell_at (board g') (1, 1) = ''X''
            \<and> move_count g' = 1)"
    and 2: "make_move init_game (- 4) 0 ''X'' = Inl IndexError"
    by (auto simp: init_game_def dest!: spec[of _ 1])
  from make_move_in_range[OF wf(2), of "''X''" 0 0] e(2)
  have 3: "make_move full_game 1 1 ''X'' = Inr (False, full_game)"
    by (auto dest!: spec[of _ 1])
  from make_move_in_range[OF wf(1), of "''X''" "- 1" 0]
  have 4: "make_move init_game (- 1) 0 ''X'' = make_move init_game 2 0 ''X''"
    by simp
  from wf(1) 1 2 3 4 show ?thesis by blast
qed

text \<open>The claim as written fails: row 3 on the fresh board raises.\<close>

theorem make_move_no_bounds_check_counterexample:
  "make_move init_game 3 0 ''X'' = Inl IndexError"
  by (simp add: make_move_def init_game_def init_board_def py_index_def)

text \<open>
  C4, as the code has it. At Hard difficulty, on a 3x3 board: when some empty cell
  completes a line for the computer, \<^verbatim>\<open>find_best_move\<close> returns such a cell; and when
  no cell does, no line is complete yet, and exactly one empty cell \<open>t\<close> completes a line
  for the human, it returns \<open>t\<close>, the block. When two or more empty cells complete a
  line for the human and none does for the computer, every empty cell scores \<open>-9\<close>: the
  best-set is all the empty cells, and each of them is returned for some draw.
\<close>

theorem hard_wins_else_blocks:
  assumes "wf_ai ai" "difficulty ai = HARD" "wf_board b" "n_empty b \<le> fuel"
  shows "((\<exists>c\<in>set (empty_cells_of b).
             check_winner_static (put b c (ai_player ai)) = Some (ai_player ai)) \<longrightarrow>
          (\<exists>c\<in>set (empty_cells_of b).
             check_winner_static (put b c (ai_player ai)) = Some (ai_player ai)
           \<and> find_best_move ai fuel r b = Some (coord c, b)))
       \<and> (check_winner_static b = None
          \<and> (\<forall>c\<in>set (empty_cells_of b).
                check_winner_static (put b c (ai_player ai)) \<noteq> Some (ai_player ai))
          \<and> t \<in> set (empty_cells_of b)
          \<and> check_winner_static (put b t (human_player ai)) = Some (human_player ai)
          \<and> (\<forall>c\<in>set (empty_cells_of b). c \<noteq> t \<longrightarrow>
                check_winner_static (put b c (human_player ai)) \<noteq> Some (human_player ai))
          \<longrightarrow> find_best_move ai fuel r b = Some (coord t, b))
       \<and> (check_winner_static b = None
          \<and> (\<forall>c\<in>set (empty_cells_of b).
                check_winner_static (put b c (ai_player ai)) \<noteq> Some (ai_player ai))
          \<and> t1 \<in> set (empty_cells_of b) \<and> t2 \<in> set (empty_cells_of b) \<and> t1 \<noteq> t2
          \<and> check_winner_static (put b t1 (human_player ai)) = Some (human_player ai)
          \<and> check_winner_static (put b t2 (human_player ai)) = Some (human_player ai)
          \<longrightarrow> (\<forall>c\<in>set (empty_cells_of b). top_eval ai fuel b c = Some (Fin (- 9)))
            \<and> best_cells ai fuel b = empty_cells_of b
            \<and> (\<forall>c\<in>set (empty_cells_of b).
                  \<exists>k. find_best_move ai fuel (r\<lparr>random_draw := k\<rparr>) b = Some (coord c, b)))"
proof (intro conjI impI)
  let ?E = "empty_cells_of b"
  let ?a = "ai_player ai" and ?h = "human_player ai"
  {
    assume h: "check_winner_static b = None
          \<and> (\<forall>c\<in>set ?E. check_winner_static (put b c ?a) \<noteq> Some ?a)
          \<and> t1 \<in> set ?E \<and> t2 \<in> set ?E \<and> t1 \<noteq> t2
          \<and> check_winner_static (put b t1 ?h) = Some ?h
          \<and> check_winner_static (put b t2 ?h) = Some ?h"
    then have nw: "check_winner_static b = None"
      and na: "\<And>c. c \<in> set ?E \<Longrightarrow> check_winner_static (put b c ?a) \<noteq> Some ?a"
      and t: "t1 \<in> set ?E" "t2 \<in> set ?E" "t1 \<noteq> t2"
      and th: "check_winner_static (put b t1 ?h) = Some ?h"
        "check_winner_static (put b t2 ?h) = Some ?h"
      by blast+
    from t(1) have ne: "?E \<noteq> []" by auto
    have g: "minimax ai fuel (put b c ?a) 0 False = Some (Fin (- 9), put b c ?a)"
      if "c \<in> set ?E" for c
      using assms(1,3) nw assms(4) na t th that by (rule fork_score)
    then show "\<forall>c\<in>set ?E. top_eval ai fuel b c = Some (Fin (- 9))"
      by (simp add: top_eval_def)
    from all_tie(1)[OF assms(1,2,3) ne g]
    show "best_cells ai fuel b = ?E" .
    from all_tie(2)[OF assms(1,2,3) ne g, where r = r]
    show "\<forall>c\<in>set ?E. \<exists>k. find_best_move ai fuel (r\<lparr>random_draw := k\<rparr>) b = Some (coord c, b)" .
  }
  {
    assume "\<exists>c\<in>set ?E. check_winner_static (put b c ?a) = Some ?a"
    then obtain c0 where c0: "c0 \<in> set ?E" "check_winner_static (put b c0 ?a) = Some ?a"
      by blast
    then have ne: "?E \<noteq> []" by auto
    from hard_choice[OF assms ne, of r]
    obtain c v where c: "c \<in> set ?E" "find_best_move ai fuel r b = Some (coord c, b)"
      "top_eval ai fuel b c = Some (Fin v)"
      and mx: "\<And>c'. c' \<in> set ?E \<Longrightarrow> \<exists>v'. top_eval ai fuel b c' = Some (Fin v') \<and> v' \<le> v"
      by blast
    from mx[OF c0(1)] obtain v0 where v0: "top_eval ai fuel b c0 = Some (Fin v0)" "v0 \<le> v"
      by blast
    from v0(1) obtain b0 where "minimax ai fuel (put b c0 ?a) 0 False = Some (Fin v0, b0)"
      by (auto simp: top_eval_Some)
    from top_score_win(2)[OF assms(1,3,4) c0(1) this] c0(2) have "v0 = 10" by simp
    from c(3) obtain b1 where m1: "minimax ai fuel (put b c ?a) 0 False = Some (Fin v, b1)"
      by (auto simp: top_eval_Some)
    from top_score_win(1)[OF assms(1,3,4) c(1) m1] v0(2) \<open>v0 = 10\<close> have "v = 10" by simp
    with top_score_win(2)[OF assms(1,3,4) c(1) m1]
    have "check_winner_static (put b c ?a) = Some ?a" by simp
    with c(1,2) show "\<exists>c\<in>set ?E. check_winner_static (put b c ?a) = Some ?a
           \<and> find_best_move ai fuel r b = Some (coord c, b)"
      by blast
  }
  {
    assume h: "check_winner_static b = None
          \<and> (\<forall>c\<in>set ?E. check_winner_static (put b c ?a) \<noteq> Some ?a)
          \<and> t \<in> set ?E
          \<and> check_winner_static (put b t ?h) = Some ?h
          \<and> (\<forall>c\<in>set ?E. c \<noteq> t \<longrightarrow> check_winner_static (put b c ?h) \<noteq> Some ?h)"
    then have nw: "check_winner_static b = None"
      and na: "\<And>c. c \<in> set ?E \<Longrightarrow> check_winner_static (put b c ?a) \<noteq> Some ?a"
      and t: "t \<in> set ?E"
      and th: "check_winner_static (put b t ?h) = Some ?h"
      and only: "\<And>c. c \<in> set ?E \<Longrightarrow> c \<noteq> t \<Longrightarrow> check_winner_static (put b c ?h) \<noteq> Some ?h"
      by blast+
    from t have ne: "?E \<noteq> []" by auto
    from hard_choice[OF assms ne, of r]
    obtain c v where c: "c \<in> set ?E" "find_best_move ai fuel r b = Some (coord c, b)"
      "top_eval ai fuel b c = Some (Fin v)"
      and mx: "\<And>c'. c' \<in> set ?E \<Longrightarrow> \<exists>v'. top_eval ai fuel b c' = Some (Fin v') \<and> v' \<le> v"
      by blast
    from mx[OF t] obtain vt where vt: "top_eval ai fuel b t = Some (Fin vt)" "vt \<le> v"
      by blast
    from vt(1) obtain bt where "minimax ai fuel (put b t ?a) 0 False = Some (Fin vt, bt)"
      by (auto simp: top_eval_Some)
    with assms(1,3) nw assms(4) t na[OF t] only have "- 8 \<le> vt"
      by (rule block_score)
    have "c = t"
    proof (rule ccontr)
      assume "c \<noteq> t"
      with assms(1,3) nw assms(4) c(1) t
      have "minimax ai fuel (put b c ?a) 0 False = Some (Fin (- 9), put b c ?a)"
        using na[OF c(1)] th by (rule unblocked_score)
      with c(3) have "v = - 9" by (simp add: top_eval_def)
      with vt(2) \<open>- 8 \<le> vt\<close> show False by simp
    qed
    with c(2) show "find_best_move ai fuel r b = Some (coord t, b)" by simp
  }
qed

theorem hard_wins_else_blocks_witness:
  "wf_ai (ox HARD) \<and> difficulty (ox HARD) = HARD
   \<and> wf_board win_board \<and> n_empty win_board \<le> 5
   \<and> check_winner_static (put win_board (0, 2) ''O'') = Some ''O''
   \<and> check_winner_static (put win_board (1, 2) ''X'') = Some ''X''
   \<and> find_best_move (ox HARD) 5 \<lparr>random_random = 0, random_draw = 3\<rparr> win_board
       = Some ((0, 2), win_board)
   \<and> wf_board late_board \<and> n_empty late_board \<le> 2
   \<and> check_winner_static late_board = None
   \<and> check_winner_static (put late_board (2, 0) ''X'') = Some ''X''
   \<and> find_best_move (ox HARD) 2 \<lparr>random_random = 0, random_draw = 3\<rparr> late_board
       = Some ((2, 0), late_board)
   \<and> wf_board fork_board \<and> n_empty fork_board \<le> 4
   \<and> check_winner_static fork_board = None
   \<and> check_winner_static (put fork_board (0, 2) ''X'') = Some ''X''
   \<and> check_winner_static (put fork_board (2, 1) ''X'') = Some ''X''
   \<and> best_cells (ox HARD) 4 fork_board = [(0, 2), (1, 2), (2, 1), (2, 2)]"
proof -
  let ?r = "\<lparr>random_random = 0, random_draw = 3\<rparr>"
  have ai: "wf_ai (ox HARD)" "difficulty (ox HARD) = HARD"
    "ai_player (ox HARD) = ''O''" "human_player (ox HARD) = ''X''"
    by (simp_all add: ox_def wf_ai_def)
  have wb: "wf_board win_board" "n_empty win_board \<le> 5"
    "empty_cells_of win_board = [(0, 2), (1, 2), (2, 1), (2, 2)]"
    by (simp_all add: wf_board_def win_board_def n_empty_def empty_cells_of_def cells_def)
  have w: "check_winner_static (put win_board (0, 2) ''O'') = Some ''O''"
    "check_winner_static (put win_board (1, 2) ''O'') \<noteq> Some ''O''"
    "check_winner_static (put win_board (2, 1) ''O'') \<noteq> Some ''O''"
    "check_winner_static (put win_board (2, 2) ''O'') \<noteq> Some ''O''"
    "check_winner_static (put win_board (1, 2) ''X'') = Some ''X''"
    by (simp_all add: check_winner_static_def win_board_def put_def place_def)
  from hard_wins_else_blocks[OF ai(1,2) wb(1,2), of ?r] w(1)
  have "\<exists>c\<in>set (empty_cells_of win_board).
             check_winner_static (put win_board c ''O'') = Some ''O''
           \<and> find_best_move (ox HARD) 5 ?r win_board = Some (coord c, win_board)"
    by (simp add: ai wb(3))
  with w(2,3,4) have 1: "find_best_move (ox HARD) 5 ?r win_board = Some ((0, 2), win_board)"
    by (auto simp: wb(3) coord_def)
  have l: "check_winner_static late_board = None"
    "check_winner_static (put late_board (2, 0) ''O'') \<noteq> Some ''O''"
    "check_winner_static (put late_board (2, 2) ''O'') \<noteq> Some ''O''"
    "check_winner_static (put late_board (2, 0) ''X'') = Some ''X''"
    "check_winner_static (put late_board (2, 2) ''X'') \<noteq> Some ''X''"
    by (simp_all add: check_winner_static_def late_board_def put_def place_def)
  from hard_wins_else_blocks[OF ai(1,2) late_board_facts(2,3), of ?r "(2, 0)"] l
  have 2: "find_best_move (ox HARD) 2 ?r late_board = Some ((2, 0), late_board)"
    by (simp add: ai late_board_facts(4) coord_def)
  have fb: "wf_board fork_board" "n_empty fork_board \<le> 4"
    "empty_cells_of fork_board = [(0, 2), (1, 2), (2, 1), (2, 2)]"
    by (simp_all add: wf_board_def fork_board_def n_empty_def empty_cells_of_def cells_def)
  have k: "check_winner_static fork_board = None"
    "check_winner_static (put fork_board (0, 2) ''O'') \<noteq> Some ''O''"
    "check_winner_static (put fork_board (1, 2) ''O'') \<noteq> Some ''O''"
    "check_winner_static (put fork_board (2, 1) ''O'') \<noteq> Some ''O''"
    "check_winner_static (put fork_board (2, 2) ''O'') \<noteq> Some ''O''"
    "check_winner_static (put fork_board (0, 2) ''X'') = Some ''X''"
    "check_winner_static (put fork_board (2, 1) ''X'') = Some ''X''"
    by (simp_all add: check_winner_static_def fork_board_def put_def place_def)
  from hard_wins_else_blocks[OF ai(1,2) fb(1,2), where ?t1.0 = "(0, 2)" and ?t2.0 = "(2, 1)"] k
  have 3: "best_cells (ox HARD) 4 fork_board = [(0, 2), (1, 2), (2, 1), (2, 2)]"
    by (simp add: ai fb(3))
  from ai(1,2) wb(1,2) w(1,5) 1 late_board_facts(2,3) l(1,4) 2 fb(1,2) k(1,6,7) 3 show ?thesis
    by blast
qed

text \<open>
  The claim as written fails where the human threatens more than one line: every empty
  cell then scores \<open>-9\<close>, and Hard may return a cell that blocks nothing. On the fork
  position the draw 1 returns \<^verbatim>\<open>(1, 2)\<close>, which lies on no line of the human's, and the
  human still completes the top row.
\<close>

theorem hard_fork_counterexample:
  "wf_board fork_board
   \<and> check_winner_static fork_board = None
   \<and> empty_cells_of fork_board = [(0, 2), (1, 2), (2, 1), (2, 2)]
   \<and> check_winner_static (put fork_board (0, 2) ''X'') = Some ''X''
   \<and> list_all (\<lambda>c. check_winner_static (put fork_board c ''O'') = None) (empty_cells_of fork_board)
   \<and> find_best_move (ox HARD) 4 \<lparr>random_random = 0, random_draw = 1\<rparr> fork_board
       = Some ((1, 2), fork_board)
   \<and> check_winner_static (put fork_board (1, 2) ''X'') = None
   \<and> check_winner_static (put (put fork_board (1, 2) ''O'') (0, 2) ''X'') = Some ''X''"
  by code_simp

text \<open>
  C5. On a 3x3 board \<^verbatim>\<open>check_winner\<close> returns none exactly when no line is uniformly
  occupied by a non-blank symbol; a symbol it returns occupies one of the eight lines;
  a symbol that occupies a line, when no other symbol does, is returned; and in every
  case, also with two completed lines, the result is the symbol of the first completed
  line in the order rows, columns, diagonals.
\<close>

theorem check_winner_lines:
  assumes "wf_board (board g)"
  shows "(check_winner g = None \<longleftrightarrow> (\<forall>l\<in>set lines. \<forall>s. \<not> line_of (board g) s l))
       \<and> (\<forall>s. check_winner g = Some s \<longrightarrow> (\<exists>l\<in>set lines. line_of (board g) s l))
       \<and> (\<forall>s. (\<exists>l\<in>set lines. line_of (board g) s l)
               \<and> (\<forall>l\<in>set lines. \<forall>s'. line_of (board g) s' l \<longrightarrow> s' = s)
              \<longrightarrow> check_winner g = Some s)
       \<and> check_winner g = map_option (\<lambda>l. cell_at (board g) (hd l)) (find (complete (board g)) lines)"
proof (intro conjI allI impI)
  show "check_winner g = None \<longleftrightarrow> (\<forall>l\<in>set lines. \<forall>s. \<not> line_of (board g) s l)"
    using assms by (simp add: check_winner_def check_winner_static_None complete_iff_line_of)
next
  fix s assume "check_winner g = Some s"
  with assms show "\<exists>l\<in>set lines. line_of (board g) s l"
    by (simp add: check_winner_def check_winner_static_Some)
next
  fix s
  assume "(\<exists>l\<in>set lines. line_of (board g) s l)
               \<and> (\<forall>l\<in>set lines. \<forall>s'. line_of (board g) s' l \<longrightarrow> s' = s)"
  with assms show "check_winner g = Some s"
    unfolding check_winner_def using check_winner_static_unique by blast
next
  show "check_winner g = map_option (\<lambda>l. cell_at (board g) (hd l)) (find (complete (board g)) lines)"
    using assms by (simp add: check_winner_def check_winner_static_first)
qed

theorem check_winner_lines_witness:
  "wf_board (board two_lines_game)
   \<and> check_winner two_lines_game = Some ''O''
   \<and> (\<exists>l\<in>set lines. line_of (board two_lines_game) ''O'' l)
   \<and> line_of (board two_lines_game) ''X'' [(0, 1), (1, 1), (2, 1)]
   \<and> find (complete (board two_lines_game)) lines = Some [(0, 0), (1, 0), (2, 0)]
   \<and> wf_board (board init_game)
   \<and> check_winner init_game = None
   \<and> \<not> line_of (board init_game) ''X'' [(0, 0), (1, 1), (2, 2)]"
proof -
  have wf: "wf_board (board two_lines_game)" "wf_board (board init_game)"
    by (simp_all add: two_lines_game_def init_game_def init_board_def wf_board_def)
  have cw: "check_winner two_lines_game = Some ''O''" "check_winner init_game = None"
    by (simp_all add: check_winner_def check_winner_static_def two_lines_game_def init_game_def init_board_def)
  have x: "line_of (board two_lines_game) ''X'' [(0, 1), (1, 1), (2, 1)]"
    by (simp add: line_of_def cell_at_def two_lines_game_def)
  have f: "find (complete (board two_lines_game)) lines = Some [(0, 0), (1, 0), (2, 0)]"
    by (simp add: lines_def complete_def line_of_def cell_at_def two_lines_game_def)
  from check_winner_lines[OF wf(1)] cw(1)
  have 1: "\<exists>l\<in>set lines. line_of (board two_lines_game) ''O'' l"
    by blast
  from check_winner_lines[OF wf(2)] cw(2)
  have "\<forall>l\<in>set lines. \<forall>s. \<not> line_of (board init_game) s l"
    by blast
  then have 2: "\<not> line_of (board init_game) ''X'' [(0, 0), (1, 1), (2, 2)]"
    by (simp add: lines_def)
  from wf cw x f 1 2 show ?thesis by blast
qed

text \<open>
  C8. When the file can be written, \<^verbatim>\<open>load_stats\<close> after \<^verbatim>\<open>save_stats\<close> yields the saved
  dictionary again, item for item: for the dictionary of every score record, in the
  desktop program and in the web front end, and for every Python value that JSON carries. A \<^verbatim>\<open>best_time\<close> that is the infinity is not written
  as a number: the file holds the literal \<^verbatim>\<open>Infinity\<close>, and what is read back is the
  float infinity, the sentinel for "unset"; an integer \<^verbatim>\<open>best_time\<close> is written as that
  number and read back as it.
\<close>

theorem save_load_round_trip:
  assumes "writable d" "distinct (map fst dw)" "map_of dw = difficulty_wins st"
  shows "load_stats cur (save_stats (stats_dict st dw) d) = stats_dict st dw
       \<and> load_stats_web (save_stats_web (stats_dict st dw) d) = stats_dict st dw
       \<and> (\<forall>v. py_ok v \<longrightarrow> load_stats cur (save_stats v d) = v)
       \<and> (best_time st = PosInf \<longrightarrow>
            (\<exists>j. stats_file (save_stats (stats_dict st dw) d) = Holds j
                 \<and> json_field j ''best_time'' = Some JInfinity)
          \<and> py_item (load_stats cur (save_stats (stats_dict st dw) d)) ''best_time''
              = Some (PNum PosInf))
       \<and> (\<forall>n. best_time st = Fin n \<longrightarrow>
            (\<exists>j. stats_file (save_stats (stats_dict st dw) d) = Holds j
                 \<and> json_field j ''best_time'' = Some (JInt n))
          \<and> py_item (load_stats cur (save_stats (stats_dict st dw) d)) ''best_time''
              = Some (PNum (Fin n)))"
proof -
  have rt: "load_stats cur (save_stats v d) = v" if "py_ok v" for v
    using assms(1) that by (simp add: load_save json_round_trip)
  have 1: "load_stats cur (save_stats (stats_dict st dw) d) = stats_dict st dw"
    using assms(2) by (intro rt py_ok_stats_dict)
  have w: "load_stats_web (save_stats_web (stats_dict st dw) d) = stats_dict st dw"
    using assms(1,2) by (simp add: load_save_web json_round_trip py_ok_stats_dict)
  have f: "stats_file (save_stats (stats_dict st dw) d) = Holds (json_dump (stats_dict st dw))"
    using assms(1) by (simp add: save_stats_def)
  have jf: "json_field (json_dump (stats_dict st dw)) ''best_time''
            = Some (json_dump (PNum (best_time st)))"
    by (simp add: json_field_def stats_dict_def)
  have pi: "py_item (stats_dict st dw) ''best_time'' = Some (PNum (best_time st))"
    by (simp add: py_item_def stats_dict_def)
  from rt 1 w f jf pi show ?thesis
    by simp
qed

theorem save_load_round_trip_witness:
  "writable fresh_disk \<and> distinct (map fst default_difficulty_wins)
   \<and> map_of default_difficulty_wins = difficulty_wins default_stats
   \<and> best_time default_stats = PosInf
   \<and> load_stats PNone (save_stats (stats_dict default_stats default_difficulty_wins) fresh_disk)
       = stats_dict default_stats default_difficulty_wins
   \<and> json_field (json_dump (stats_dict default_stats default_difficulty_wins)) ''best_time''
       = Some JInfinity
   \<and> py_item (load_stats PNone
         (save_stats (stats_dict default_stats default_difficulty_wins) fresh_disk)) ''best_time''
       = Some (PNum PosInf)"
proof -
  have h: "writable fresh_disk" "distinct (map fst default_difficulty_wins)"
    "map_of default_difficulty_wins = difficulty_wins default_stats"
    "best_time default_stats = PosInf"
    by (auto simp: fresh_disk_def default_difficulty_wins_def default_stats_def fun_eq_iff)
  have jf: "json_field (json_dump (stats_dict default_stats default_difficulty_wins)) ''best_time''
       = Some JInfinity"
    by (simp add: json_field_def stats_dict_def default_stats_def)
  from save_load_round_trip[OF h(1,2,3), of PNone] h jf show ?thesis
    by blast
qed

text \<open>
  C9. On a 3x3 board \<^verbatim>\<open>is_board_full\<close> holds if and only if \<^verbatim>\<open>get_empty_cells\<close>
  returns the empty list.
\<close>

theorem is_board_full_iff_no_empty_cells:
  "wf_board (board g) \<Longrightarrow> is_board_full g \<longleftrightarrow> get_empty_cells g = []"
  by (simp add: is_board_full_def get_empty_cells_def is_full_static_iff)

theorem is_board_full_iff_no_empty_cells_witness:
  "wf_board (board full_game) \<and> is_board_full full_game \<and> get_empty_cells full_game = []
   \<and> wf_board (board init_game) \<and> \<not> is_board_full init_game \<and> get_empty_cells init_game \<noteq> []"
  using is_board_full_iff_no_empty_cells[of full_game] is_board_full_iff_no_empty_cells[of init_game]
  by (simp add: full_game_def init_game_def init_board_def wf_board_def is_board_full_def is_full_static_def)

text \<open>
  C10. One call of \<^verbatim>\<open>update_game\<close> (and of \<^verbatim>\<open>update_stats\<close>) adds one to
  \<^verbatim>\<open>games_played\<close> and one to exactly one of \<^verbatim>\<open>wins\<close>, \<^verbatim>\<open>losses\<close>, \<^verbatim>\<open>draws\<close>
  (a result other than W or L counts as a draw), so \<open>wins + losses + draws = games_played\<close>
  is preserved; \<^verbatim>\<open>best_time\<close> never increases and changes only on a win. This holds of
  the record as the call leaves it, also when the call ends in \<^verbatim>\<open>KeyError\<close>.
\<close>

theorem update_counts:
  "(\<forall>upd\<in>{update_game, update_stats}.
     let st' = snd (upd st result time_taken diff)
     in games_played st' = games_played st + 1
      \<and> (result = ''W'' \<longrightarrow> wins st' = wins st + 1 \<and> losses st' = losses st \<and> draws st' = draws st)
      \<and> (result = ''L'' \<longrightarrow> wins st' = wins st \<and> losses st' = losses st + 1 \<and> draws st' = draws st)
      \<and> (result \<noteq> ''W'' \<and> result \<noteq> ''L'' \<longrightarrow>
            wins st' = wins st \<and> losses st' = losses st \<and> draws st' = draws st + 1)
      \<and> (wins st + losses st + draws st = games_played st \<longrightarrow>
            wins st' + losses st' + draws st' = games_played st')
      \<and> \<not> py_lt (best_time st) (best_time st')
      \<and> (best_time st' \<noteq> best_time st \<longrightarrow> result = ''W''))"
  by (auto simp: update_game_def update_stats_def Let_def py_lt_irrefl split: option.splits dest: py_lt_asym)

theorem update_counts_witness:
  "(let st' = snd (update_game default_stats ''W'' (Fin 12) ''HARD'')
    in games_played st' = 1 \<and> wins st' = 1 \<and> losses st' = 0 \<and> draws st' = 0
     \<and> wins st' + losses st' + draws st' = games_played st'
     \<and> best_time st' = Fin 12)
   \<and> (let st' = snd (update_stats default_stats ''D'' (Fin 12) ''nokey'')
    in games_played st' = 1 \<and> wins st' = 0 \<and> losses st' = 0 \<and> draws st' = 1
     \<and> best_time st' = PosInf)
   \<and> (let st' = snd (update_game default_stats ''W'' (Fin 12) ''nokey'')
    in fst (update_game default_stats ''W'' (Fin 12) ''nokey'') = Some KeyError
     \<and> games_played st' = 1 \<and> wins st' = 1 \<and> best_time st' = PosInf)"
  using update_counts[of default_stats "''W''" "Fin 12" "''HARD''"]
    update_counts[of default_stats "''D''" "Fin 12" "''nokey''"]
    update_counts[of default_stats "''W''" "Fin 12" "''nokey''"]
  by (simp add: update_game_def update_stats_def default_stats_def Let_def)

text \<open>
  C2. With the two symbols distinct and not blank, on a 3x3 board and within the
  recursion limit, \<^verbatim>\<open>minimax(board, depth, is_maximizing)\<close> returns \<open>10 - depth\<close> when the
  winner scan yields the computer's symbol, \<open>-10 + depth\<close> when it yields the human's,
  \<open>0\<close> on a full board otherwise, and else the maximum (maximizing, placing the
  computer's symbol) or the minimum (minimizing, placing the human's symbol) of
  \<^verbatim>\<open>minimax(board', depth + 1, not is_maximizing)\<close> over every empty cell; every call
  returns, and leaves the board as it found it.
\<close>

theorem minimax_spec:
  assumes "wf_ai ai" "wf_board b" "n_empty b \<le> fuel"
  shows "(check_winner_static b = Some (ai_player ai) \<longrightarrow>
            minimax ai (Suc fuel) b depth m = Some (Fin (10 - depth), b))
       \<and> (check_winner_static b = Some (human_player ai) \<longrightarrow>
            minimax ai (Suc fuel) b depth m = Some (Fin (- 10 + depth), b))
       \<and> (check_winner_static b \<noteq> Some (ai_player ai) \<and> check_winner_static b \<noteq> Some (human_player ai) \<longrightarrow>
            (is_full_static b \<longrightarrow> minimax ai (Suc fuel) b depth m = Some (Fin 0, b))
          \<and> (\<not> is_full_static b \<longrightarrow>
                empty_cells_of b \<noteq> []
              \<and> (\<forall>c\<in>set (empty_cells_of b). \<exists>v.
                    minimax ai fuel (put b c (ai_player ai)) (depth + 1) False
                    = Some (Fin v, put b c (ai_player ai)))
              \<and> (\<forall>c\<in>set (empty_cells_of b). \<exists>v.
                    minimax ai fuel (put b c (human_player ai)) (depth + 1) True
                    = Some (Fin v, put b c (human_player ai)))
              \<and> minimax ai (Suc fuel) b depth True
                  = Some (Fin (Max {v. \<exists>c\<in>set (empty_cells_of b).
                        minimax ai fuel (put b c (ai_player ai)) (depth + 1) False
                        = Some (Fin v, put b c (ai_player ai))}), b)
              \<and> minimax ai (Suc fuel) b depth False
                  = Some (Fin (Min {v. \<exists>c\<in>set (empty_cells_of b).
                        minimax ai fuel (put b c (human_player ai)) (depth + 1) True
                        = Some (Fin v, put b c (human_player ai))}), b)))"
proof (intro conjI impI)
  assume "check_winner_static b = Some (ai_player ai)"
  then show "minimax ai (Suc fuel) b depth m = Some (Fin (10 - depth), b)"
    using assms(1) by (simp add: evaluate_cases minimax_terminal)
next
  assume "check_winner_static b = Some (human_player ai)"
  then show "minimax ai (Suc fuel) b depth m = Some (Fin (- 10 + depth), b)"
    using assms(1) by (simp add: evaluate_cases minimax_terminal)
next
  assume nw: "check_winner_static b \<noteq> Some (ai_player ai) \<and> check_winner_static b \<noteq> Some (human_player ai)"
  then have ev: "evaluate ai b \<noteq> 10" "evaluate ai b \<noteq> - 10"
    using assms(1) by (simp_all add: evaluate_cases)
  {
    assume "is_full_static b"
    with ev show "minimax ai (Suc fuel) b depth m = Some (Fin 0, b)"
      by (simp add: minimax_terminal)
  }
  assume nf: "\<not> is_full_static b"
  from assms(1) have nb: "ai_player ai \<noteq> blank" "human_player ai \<noteq> blank"
    by (simp_all add: wf_ai_def)
  from child_scores[OF assms nb(1), of "depth + 1" False]
  obtain g where g: "\<And>c. c \<in> set (empty_cells_of b) \<Longrightarrow>
       minimax ai fuel (put b c (ai_player ai)) (depth + 1) False
       = Some (Fin (g c), put b c (ai_player ai))"
    by blast
  from child_scores[OF assms nb(2), of "depth + 1" True]
  obtain h where h: "\<And>c. c \<in> set (empty_cells_of b) \<Longrightarrow>
       minimax ai fuel (put b c (human_player ai)) (depth + 1) True
       = Some (Fin (h c), put b c (human_player ai))"
    by blast
  from nf assms(2) show "empty_cells_of b \<noteq> []"
    by (simp add: is_full_static_iff)
  from g show "\<forall>c\<in>set (empty_cells_of b). \<exists>v.
                    minimax ai fuel (put b c (ai_player ai)) (depth + 1) False
                    = Some (Fin v, put b c (ai_player ai))"
    by blast
  from h show "\<forall>c\<in>set (empty_cells_of b). \<exists>v.
                    minimax ai fuel (put b c (human_player ai)) (depth + 1) True
                    = Some (Fin v, put b c (human_player ai))"
    by blast
  have "minimax ai (Suc fuel) b depth True
        = Some (Fin (best_of True (g ` set (empty_cells_of b))), b)"
    using assms(2) nf ev by (rule minimax_step) (simp add: mover_def g)
  then show "minimax ai (Suc fuel) b depth True
                  = Some (Fin (Max {v. \<exists>c\<in>set (empty_cells_of b).
                        minimax ai fuel (put b c (ai_player ai)) (depth + 1) False
                        = Some (Fin v, put b c (ai_player ai))}), b)"
    using child_score_set[of "empty_cells_of b"
        "\<lambda>c. minimax ai fuel (put b c (ai_player ai)) (depth + 1) False" g
        "\<lambda>c. put b c (ai_player ai)", OF g]
    by (simp only: best_of_def if_True)
  have "minimax ai (Suc fuel) b depth False
        = Some (Fin (best_of False (h ` set (empty_cells_of b))), b)"
    using assms(2) nf ev by (rule minimax_step) (simp add: mover_def h)
  then show "minimax ai (Suc fuel) b depth False
                  = Some (Fin (Min {v. \<exists>c\<in>set (empty_cells_of b).
                        minimax ai fuel (put b c (human_player ai)) (depth + 1) True
                        = Some (Fin v, put b c (human_player ai))}), b)"
    using child_score_set[of "empty_cells_of b"
        "\<lambda>c. minimax ai fuel (put b c (human_player ai)) (depth + 1) True" h
        "\<lambda>c. put b c (human_player ai)", OF h]
    by (simp only: best_of_def if_False)
qed

theorem minimax_spec_witness:
  "wf_ai (ox HARD) \<and> wf_board late_board \<and> n_empty late_board \<le> 2
   \<and> check_winner_static late_board = None \<and> \<not> is_full_static late_board
   \<and> minimax (ox HARD) 2 (put late_board (2, 0) ''O'') 1 False
       = Some (Fin 0, put late_board (2, 0) ''O'')
   \<and> minimax (ox HARD) 2 (put late_board (2, 2) ''O'') 1 False
       = Some (Fin (- 8), put late_board (2, 2) ''O'')
   \<and> minimax (ox HARD) 3 late_board 0 True
       = Some (Fin (Max {v. \<exists>c\<in>set (empty_cells_of late_board).
             minimax (ox HARD) 2 (put late_board c ''O'') (0 + 1) False
             = Some (Fin v, put late_board c ''O'')}), late_board)
   \<and> minimax (ox HARD) 3 late_board 0 True = Some (Fin 0, late_board)"
proof -
  have cw: "check_winner_static late_board = None" "\<not> is_full_static late_board"
    by (simp_all add: check_winner_static_def late_board_def is_full_static_def)
  have ch: "minimax (ox HARD) 2 (put late_board (2, 0) ''O'') 1 False
       = Some (Fin 0, put late_board (2, 0) ''O'')"
    "minimax (ox HARD) 2 (put late_board (2, 2) ''O'') 1 False
       = Some (Fin (- 8), put late_board (2, 2) ''O'')"
    "minimax (ox HARD) 3 late_board 0 True = Some (Fin 0, late_board)"
    by code_simp+
  have "Suc 2 = 3" by simp
  with minimax_spec[where depth = 0 and m = True, OF late_board_facts(1)[of HARD] late_board_facts(2,3)] cw
  have "minimax (ox HARD) 3 late_board 0 True
       = Some (Fin (Max {v. \<exists>c\<in>set (empty_cells_of late_board).
             minimax (ox HARD) 2 (put late_board c ''O'') (0 + 1) False
             = Some (Fin v, put late_board c ''O'')}), late_board)"
    by (simp add: ox_def)
  with late_board_facts(1)[of HARD] late_board_facts(2,3) cw ch show ?thesis
    by blast
qed

text \<open>
  C3. On a 3x3 board with an empty cell, \<^verbatim>\<open>find_best_move\<close> at Hard difficulty returns a
  member of the best-set, and the list \<^verbatim>\<open>best_moves\<close> it draws from is the whole best-set:
  the empty cells whose top-level evaluation is the maximum \<open>v\<close> over all empty cells.
  Every cell of the best-set is returned for some draw.
\<close>

theorem find_best_move_hard_best_set:
  assumes "wf_ai ai" "difficulty ai = HARD" "wf_board b" "empty_cells_of b \<noteq> []"
    and "n_empty b \<le> fuel"
  shows "\<exists>v. search_top ai fuel b = Some (Fin v, best_cells ai fuel b, b)
           \<and> (\<forall>c\<in>set (empty_cells_of b).
                 (c \<in> set (best_cells ai fuel b) \<longleftrightarrow> top_eval ai fuel b c = Some (Fin v))
               \<and> (\<exists>v'. top_eval ai fuel b c = Some (Fin v') \<and> v' \<le> v))
           \<and> (\<exists>c\<in>set (best_cells ai fuel b). find_best_move ai fuel r b = Some (coord c, b))
           \<and> (\<forall>c\<in>set (best_cells ai fuel b).
                 \<exists>k. find_best_move ai fuel (r\<lparr>random_draw := k\<rparr>) b = Some (coord c, b))"
proof -
  from search_top_best[OF assms(1,3,5,4)]
  obtain v where st: "search_top ai fuel b = Some (Fin v, best_cells ai fuel b, b)"
    and ne: "best_cells ai fuel b \<noteq> []"
    and sc: "\<forall>c\<in>set (empty_cells_of b).
                 (c \<in> set (best_cells ai fuel b) \<longleftrightarrow> top_eval ai fuel b c = Some (Fin v))
               \<and> (\<exists>v'. top_eval ai fuel b c = Some (Fin v') \<and> v' \<le> v)"
    by blast
  have fb: "find_best_move ai fuel r' b = Some (coord (random_choice r' (best_cells ai fuel b)), b)"
    for r'
    using find_best_move_hard[OF assms(2) st] ne by simp
  have 1: "\<exists>c\<in>set (best_cells ai fuel b). find_best_move ai fuel r b = Some (coord c, b)"
    using fb[of r] random_choice_in[OF ne, of r] by blast
  have 2: "\<forall>c\<in>set (best_cells ai fuel b).
                 \<exists>k. find_best_move ai fuel (r\<lparr>random_draw := k\<rparr>) b = Some (coord c, b)"
  proof
    fix c assume "c \<in> set (best_cells ai fuel b)"
    then obtain k where "random_choice (r\<lparr>random_draw := k\<rparr>) (best_cells ai fuel b) = c"
      using random_choice_any[where r = r and xs = "best_cells ai fuel b" and x = c] by auto
    with fb[of "r\<lparr>random_draw := k\<rparr>"]
    show "\<exists>k. find_best_move ai fuel (r\<lparr>random_draw := k\<rparr>) b = Some (coord c, b)"
      by auto
  qed
  from st sc 1 2 show ?thesis by blast
qed

theorem find_best_move_hard_best_set_witness:
  "wf_ai (ox HARD) \<and> difficulty (ox HARD) = HARD \<and> wf_board late_board
   \<and> empty_cells_of late_board \<noteq> [] \<and> n_empty late_board \<le> 2
   \<and> top_eval (ox HARD) 2 late_board (2, 0) = Some (Fin 0)
   \<and> top_eval (ox HARD) 2 late_board (2, 2) = Some (Fin (- 9))
   \<and> best_cells (ox HARD) 2 late_board = [(2, 0)]
   \<and> find_best_move (ox HARD) 2 \<lparr>random_random = 0, random_draw = 5\<rparr> late_board
       = Some ((2, 0), late_board)"
proof -
  have h: "difficulty (ox HARD) = HARD" "empty_cells_of late_board \<noteq> []"
    by (simp_all add: ox_def late_board_facts)
  have ev: "top_eval (ox HARD) 2 late_board (2, 0) = Some (Fin 0)"
    "top_eval (ox HARD) 2 late_board (2, 2) = Some (Fin (- 9))"
    "best_cells (ox HARD) 2 late_board = [(2, 0)]"
    by code_simp+
  from find_best_move_hard_best_set[OF late_board_facts(1)[of HARD] h(1) late_board_facts(2) h(2)
      late_board_facts(3), of "\<lparr>random_random = 0, random_draw = 5\<rparr>"]
  have "\<exists>c\<in>set (best_cells (ox HARD) 2 late_board).
          find_best_move (ox HARD) 2 \<lparr>random_random = 0, random_draw = 5\<rparr> late_board
          = Some (coord c, late_board)"
    by blast
  then have "find_best_move (ox HARD) 2 \<lparr>random_random = 0, random_draw = 5\<rparr> late_board
       = Some ((2, 0), late_board)"
    by (simp add: ev coord_def)
  with late_board_facts(1)[of HARD] late_board_facts(2,3) h ev show ?thesis
    by blast
qed

text \<open>
  C6. For every difficulty, on a 3x3 board, \<^verbatim>\<open>find_best_move\<close> returns \<^verbatim>\<open>(-1, -1)\<close> if and
  only if the board has no empty cell, and otherwise the coordinates of an empty cell.
\<close>

theorem find_best_move_sentinel:
  assumes "wf_ai ai" "wf_board b" "n_empty b \<le> fuel"
  shows "\<exists>mv. find_best_move ai fuel r b = Some (mv, b)
           \<and> (mv = (- 1, - 1) \<longleftrightarrow> empty_cells_of b = [])
           \<and> (empty_cells_of b \<noteq> [] \<longrightarrow> mv \<in> coord ` set (empty_cells_of b))"
  using assms by (rule find_best_move_result)

theorem find_best_move_sentinel_witness:
  "wf_ai (ox MEDIUM) \<and> wf_board late_board \<and> n_empty late_board \<le> 2
   \<and> find_best_move (ox MEDIUM) 2 \<lparr>random_random = 1 / 10, random_draw = 1\<rparr> late_board
       = Some ((2, 2), late_board)
   \<and> empty_cells_of late_board = [(2, 0), (2, 2)]
   \<and> wf_board (board full_game) \<and> n_empty (board full_game) \<le> 0
   \<and> empty_cells_of (board full_game) = []
   \<and> find_best_move (ox MEDIUM) 0 \<lparr>random_random = 1 / 10, random_draw = 1\<rparr> (board full_game)
       = Some ((- 1, - 1), board full_game)"
proof -
  have f: "wf_board (board full_game)" "n_empty (board full_game) \<le> 0"
    "empty_cells_of (board full_game) = []"
    by (simp_all add: wf_board_def full_game_def n_empty_def empty_cells_of_def cells_def)
  have 1: "find_best_move (ox MEDIUM) 2 \<lparr>random_random = 1 / 10, random_draw = 1\<rparr> late_board
       = Some ((2, 2), late_board)"
    by code_simp
  from find_best_move_sentinel[OF late_board_facts(1)[of MEDIUM] f(1,2),
      of "\<lparr>random_random = 1 / 10, random_draw = 1\<rparr>"] f(3)
  have 2: "find_best_move (ox MEDIUM) 0 \<lparr>random_random = 1 / 10, random_draw = 1\<rparr> (board full_game)
       = Some ((- 1, - 1), board full_game)"
    by auto
  from late_board_facts(1)[of MEDIUM] late_board_facts(2,3,4) f 1 2 show ?thesis
    by blast
qed

text \<open>
  C7. Whenever \<^verbatim>\<open>find_best_move\<close>, its top-level loop or \<^verbatim>\<open>minimax\<close> returns on a 3x3
  board, the board is cell for cell what it was before the call: the argument of
  \<^verbatim>\<open>find_best_move\<close> is only read, and every placement on the working copy is undone.
  With the program's symbols and within the recursion limit all three do return.
\<close>

theorem search_restores_board:
  assumes "wf_board b"
  shows "(\<forall>mv b'. find_best_move ai fuel r b = Some (mv, b') \<longrightarrow> b' = b)
       \<and> (\<forall>bv bm b'. search_top ai fuel b = Some (bv, bm, b') \<longrightarrow> b' = b)
       \<and> (\<forall>v b'. minimax ai fuel b d m = Some (v, b') \<longrightarrow> b' = b)
       \<and> (wf_ai ai \<and> n_empty b \<le> fuel \<longrightarrow>
            (\<exists>mv. find_best_move ai fuel r b = Some (mv, b))
          \<and> (\<exists>bv bm. search_top ai fuel b = Some (bv, bm, b))
          \<and> (\<exists>v. minimax ai (Suc fuel) b d m = Some (v, b)))"
proof (intro conjI allI impI)
  fix mv b' assume "find_best_move ai fuel r b = Some (mv, b')"
  then show "b' = b" by (rule find_best_move_frame)
next
  fix bv bm b' assume "search_top ai fuel b = Some (bv, bm, b')"
  with assms show "b' = b" by (rule search_top_frame)
next
  fix v b' assume "minimax ai fuel b d m = Some (v, b')"
  with assms show "b' = b" by (rule minimax_frame)
next
  assume h: "wf_ai ai \<and> n_empty b \<le> fuel"
  then have ai: "wf_ai ai" and n: "n_empty b \<le> fuel" by simp_all
  from find_best_move_result[OF ai assms n, of r]
  show "\<exists>mv. find_best_move ai fuel r b = Some (mv, b)" by blast
  show "\<exists>bv bm. search_top ai fuel b = Some (bv, bm, b)"
  proof (cases "empty_cells_of b = []")
    case True
    then show ?thesis
      using search_top_scores[OF assms, of ai fuel "\<lambda>_. 0"] by simp
  next
    case False
    from search_top_best[OF ai assms n False] show ?thesis by blast
  qed
  from n have "n_empty b < Suc fuel" by simp
  from minimax_returns[OF ai assms this, of d m]
  show "\<exists>v. minimax ai (Suc fuel) b d m = Some (v, b)" by blast
qed

theorem search_restores_board_witness:
  "wf_board late_board \<and> wf_ai (ox HARD) \<and> n_empty late_board \<le> 2
   \<and> (\<exists>mv. find_best_move (ox HARD) 2 \<lparr>random_random = 0, random_draw = 0\<rparr> late_board
         = Some (mv, late_board))
   \<and> (\<exists>bv bm. search_top (ox HARD) 2 late_board = Some (bv, bm, late_board))
   \<and> (\<exists>v. minimax (ox HARD) (Suc 2) late_board 0 True = Some (v, late_board))"
  using search_restores_board[OF late_board_facts(2), of "ox HARD" 2
      "\<lparr>random_random = 0, random_draw = 0\<rparr>" 0 True]
    late_board_facts(1)[of HARD] late_board_facts(2,3)
  by blast


end
